theory Spec2Isabelle
  imports Main "HOL-Library.Word"
begin

section \<open>Data model\<close>

text \<open>
  The program is a single C++ translation unit (\<^verbatim>\<open>main.cpp\<close>).  Every C++ \<^verbatim>\<open>int\<close> is a
  32-bit word read in two's complement with \<open>sint\<close>.  Signed overflow and out-of-range
  vector subscripts are undefined behaviour in C++; the embedding makes each of them an
  explicit error result, so a computation either returns a value or names what went wrong.
\<close>

type_synonym cint = "32 word"

datatype error =
    OutOfBounds         \<comment> \<open>\<^verbatim>\<open>v[i]\<close> with \<open>i\<close> outside the vector\<close>
  | SignedOverflow      \<comment> \<open>an \<^verbatim>\<open>int\<close> result outside \<open>[INT_MIN, INT_MAX]\<close>\<close>
  | BadDistribution     \<comment> \<open>a draw from \<^verbatim>\<open>uniform_int_distribution(a, b)\<close> with \<open>b < a\<close>\<close>
  | LengthError         \<comment> \<open>\<^verbatim>\<open>std::vector\<close> constructed with a negative \<^verbatim>\<open>int\<close> size\<close>

record Room =
  capacity :: cint

record Incompatibility =
  student1 :: cint
  student2 :: cint

text \<open>The two globals guarded by \<^verbatim>\<open>bestSolutionMutex\<close>.\<close>

record globals =
  globalBestFitness :: cint
  globalBestAssignment :: "cint list"

definition INT_MAX :: cint where
  "INT_MAX = 2147483647"

definition initial_globals :: globals where
  "initial_globals = \<lparr>globalBestFitness = INT_MAX, globalBestAssignment = []\<rparr>"

section \<open>Checked arithmetic and vector access\<close>

definition bind_err :: "error + 'a \<Rightarrow> ('a \<Rightarrow> error + 'b) \<Rightarrow> error + 'b" where
  "bind_err m f = (case m of Inl e \<Rightarrow> Inl e | Inr x \<Rightarrow> f x)"

definition int_result :: "int \<Rightarrow> error + cint" where
  "int_result z =
     (if - 2147483648 \<le> z \<and> z \<le> 2147483647 then Inr (word_of_int z) else Inl SignedOverflow)"

definition add_int :: "cint \<Rightarrow> cint \<Rightarrow> error + cint" where
  "add_int a b = int_result (sint a + sint b)"

definition sub_int :: "cint \<Rightarrow> cint \<Rightarrow> error + cint" where
  "sub_int a b = int_result (sint a - sint b)"

definition mul_int :: "cint \<Rightarrow> cint \<Rightarrow> error + cint" where
  "mul_int a b = int_result (sint a * sint b)"

text \<open>\<^verbatim>\<open>static_cast<int>(n)\<close> of a \<^verbatim>\<open>size_t\<close>: the value modulo \<open>2^32\<close>.\<close>

definition size_to_int :: "nat \<Rightarrow> cint" where
  "size_to_int n = word_of_nat n"

text \<open>
  \<^verbatim>\<open>v[i]\<close> with an \<^verbatim>\<open>int\<close> subscript: the subscript is converted to \<^verbatim>\<open>size_t\<close>, so a negative
  one becomes larger than any vector.
\<close>

definition at_int :: "'a list \<Rightarrow> cint \<Rightarrow> error + 'a" where
  "at_int v i =
     (if 0 \<le> sint i \<and> nat (sint i) < length v then Inr (v ! nat (sint i)) else Inl OutOfBounds)"

text \<open>\<^verbatim>\<open>v[i]\<close> with a \<^verbatim>\<open>size_t\<close> subscript.\<close>

definition at_size :: "'a list \<Rightarrow> nat \<Rightarrow> error + 'a" where
  "at_size v i = (if i < length v then Inr (v ! i) else Inl OutOfBounds)"

section \<open>evaluateSolution\<close>

text \<open>
  First loop (lines 53--57): count the students of each room.  An entry that is negative or
  not below \<^verbatim>\<open>static_cast<int>(roomUsage.size())\<close> is skipped.
\<close>

fun count_usage :: "cint list \<Rightarrow> cint list \<Rightarrow> error + cint list" where
  "count_usage [] roomUsage = Inr roomUsage"
| "count_usage (room # rest) roomUsage =
     (if 0 \<le> sint room \<and> sint room < sint (size_to_int (length roomUsage)) then
        bind_err (at_int roomUsage room) (\<lambda>u.
        bind_err (add_int u 1) (\<lambda>u'.
        count_usage rest (roomUsage[nat (sint room) := u'])))
      else count_usage rest roomUsage)"

text \<open>Second loop (lines 60--65): the penalty for rooms over capacity.\<close>

function capacity_penalty :: "nat \<Rightarrow> Room list \<Rightarrow> cint list \<Rightarrow> cint \<Rightarrow> error + cint" where
  "capacity_penalty i rooms roomUsage penalty =
     (if i < length rooms then
        bind_err (at_size roomUsage i) (\<lambda>u.
        bind_err (at_size rooms i) (\<lambda>r.
        if sint (capacity r) < sint u then
          bind_err (sub_int u (capacity r)) (\<lambda>d.
          bind_err (mul_int d 10) (\<lambda>m.
          bind_err (add_int penalty m) (\<lambda>p.
          capacity_penalty (i + 1) rooms roomUsage p)))
        else capacity_penalty (i + 1) rooms roomUsage penalty))
      else Inr penalty)"
  by pat_completeness auto
termination
  by (relation "measure (\<lambda>(i, rooms, roomUsage, penalty). length rooms - i)") auto

declare capacity_penalty.simps [simp del]

text \<open>Third loop (lines 68--72): the penalty for incompatible students sharing a room.\<close>

fun incompatibility_penalty ::
  "cint list \<Rightarrow> Incompatibility list \<Rightarrow> cint \<Rightarrow> error + cint" where
  "incompatibility_penalty assignment [] penalty = Inr penalty"
| "incompatibility_penalty assignment (inc # rest) penalty =
     bind_err (at_int assignment (student1 inc)) (\<lambda>r1.
     bind_err (at_int assignment (student2 inc)) (\<lambda>r2.
     if r1 = r2 then
       bind_err (add_int penalty 5) (\<lambda>p. incompatibility_penalty assignment rest p)
     else incompatibility_penalty assignment rest penalty))"

definition evaluateSolution ::
  "cint list \<Rightarrow> Room list \<Rightarrow> Incompatibility list \<Rightarrow> error + cint" where
  "evaluateSolution assignment rooms incompatibilities =
     bind_err (count_usage assignment (replicate (length rooms) 0)) (\<lambda>roomUsage.
     bind_err (capacity_penalty 0 rooms roomUsage 0) (\<lambda>penalty.
     incompatibility_penalty assignment incompatibilities penalty))"

section \<open>The shared best solution\<close>

text \<open>
  The block guarded by \<^verbatim>\<open>std::lock_guard\<close> in \<^verbatim>\<open>monteCarloThread\<close> (lines 105--114), which
  the specification calls \<open>tryImprove\<close>: compare and, on a strict improvement, overwrite
  both globals.
\<close>

definition tryImprove :: "cint \<Rightarrow> cint list \<Rightarrow> globals \<Rightarrow> globals" where
  "tryImprove fitness currentAssignment g =
     (if sint fitness < sint (globalBestFitness g) then
        g\<lparr>globalBestFitness := fitness, globalBestAssignment := currentAssignment\<rparr>
      else g)"

text \<open>A sequence of executions of the guarded block, in the order the lock was taken.\<close>

fun tryImprove_all :: "(cint \<times> cint list) list \<Rightarrow> globals \<Rightarrow> globals" where
  "tryImprove_all [] g = g"
| "tryImprove_all ((fitness, currentAssignment) # rest) g =
     tryImprove_all rest (tryImprove fitness currentAssignment g)"

text \<open>
  One pass through the body of the worker's loop once the candidate is generated
  (lines 102--114): score the candidate, then run the guarded block with it.
\<close>

definition attempt ::
  "Room list \<Rightarrow> Incompatibility list \<Rightarrow> cint list \<Rightarrow> globals \<Rightarrow> error + globals" where
  "attempt rooms incompatibilities currentAssignment g =
     bind_err (evaluateSolution currentAssignment rooms incompatibilities) (\<lambda>fitness.
     Inr (tryImprove fitness currentAssignment g))"

text \<open>
  The guarded blocks of all threads are serialised by the mutex and everything else a
  worker touches is its own, so a run of the search is a sequence of attempts.
\<close>

fun attempts ::
  "Room list \<Rightarrow> Incompatibility list \<Rightarrow> cint list list \<Rightarrow> globals \<Rightarrow> error + globals" where
  "attempts rooms incompatibilities [] g = Inr g"
| "attempts rooms incompatibilities (currentAssignment # rest) g =
     bind_err (attempt rooms incompatibilities currentAssignment g) (\<lambda>g'.
     attempts rooms incompatibilities rest g')"

section \<open>monteCarloThread\<close>

text \<open>
  \<^verbatim>\<open>roomDist(rng)\<close> for \<^verbatim>\<open>uniform_int_distribution<>(0, b)\<close>: some value of \<open>[0, b]\<close>.  The
  generator's raw output is a parameter of the model, and every value of the range is the
  image of some raw output.
\<close>

definition roomDist :: "cint \<Rightarrow> nat \<Rightarrow> cint" where
  "roomDist b raw = word_of_nat (raw mod (nat (sint b) + 1))"

text \<open>
  Line 91 builds the distribution over \<open>[0, b]\<close> without looking at \<open>b\<close>; nothing happens
  there.  A draw from it (line 98) is defined only when \<open>b\<close> is not below 0.
\<close>

definition draw_room :: "cint \<Rightarrow> nat \<Rightarrow> error + cint" where
  "draw_room b raw = (if sint b < 0 then Inl BadDistribution else Inr (roomDist b raw))"

text \<open>
  Lines 97--99: every student, in turn, gets a room drawn at random; \<open>raw j\<close> is the raw
  draw for student \<open>j\<close>.  With no student nothing is drawn.
\<close>

fun fill_assignment :: "nat list \<Rightarrow> cint \<Rightarrow> (nat \<Rightarrow> nat) \<Rightarrow> error + cint list" where
  "fill_assignment [] b raw = Inr []"
| "fill_assignment (j # students) b raw =
     bind_err (draw_room b (raw j)) (\<lambda>room.
     bind_err (fill_assignment students b raw) (\<lambda>rest. Inr (room # rest)))"

definition generate_assignment :: "nat \<Rightarrow> cint \<Rightarrow> (nat \<Rightarrow> nat) \<Rightarrow> error + cint list" where
  "generate_assignment numStudents b raw = fill_assignment [0..<numStudents] b raw"

text \<open>The candidate that is generated when the distribution is well formed.\<close>

definition random_assignment :: "nat \<Rightarrow> cint \<Rightarrow> (nat \<Rightarrow> nat) \<Rightarrow> cint list" where
  "random_assignment numStudents b raw = map (\<lambda>j. roomDist b (raw j)) [0..<numStudents]"

text \<open>The loop of lines 95--115; \<open>raw i j\<close> is the raw draw for student \<open>j\<close> in iteration \<open>i\<close>.\<close>

function worker_loop ::
  "nat \<Rightarrow> nat \<Rightarrow> Room list \<Rightarrow> Incompatibility list \<Rightarrow> nat \<Rightarrow> cint \<Rightarrow> (nat \<Rightarrow> nat \<Rightarrow> nat) \<Rightarrow>
   globals \<Rightarrow> error + globals" where
  "worker_loop i iterations rooms incompatibilities numStudents b raw g =
     (if i < iterations then
        bind_err (generate_assignment numStudents b (raw i)) (\<lambda>currentAssignment.
        bind_err (attempt rooms incompatibilities currentAssignment g) (\<lambda>g'.
        worker_loop (i + 1) iterations rooms incompatibilities numStudents b raw g'))
      else Inr g)"
  by pat_completeness auto
termination
  by (relation "measure (\<lambda>(i, iterations, rest). iterations - i)") auto

declare worker_loop.simps [simp del]

text \<open>
  What a worker does before its loop (lines 90--93): the distribution over
  \<open>[0, rooms.size() - 1]\<close>, whose upper bound is a \<^verbatim>\<open>size_t\<close> narrowed to \<^verbatim>\<open>int\<close> and is
  not checked, and the candidate buffer of \<^verbatim>\<open>numStudents\<close> entries.  The result is the
  upper bound of the distribution.
\<close>

definition worker_setup :: "Room list \<Rightarrow> cint \<Rightarrow> error + cint" where
  "worker_setup rooms numStudents =
     (let b = size_to_int (length rooms) - 1 in
      if sint numStudents < 0 then Inl LengthError else Inr b)"

text \<open>The parameter \<^verbatim>\<open>threadId\<close> is used in a comment only and is left out.\<close>

definition monteCarloThread ::
  "cint \<Rightarrow> Room list \<Rightarrow> Incompatibility list \<Rightarrow> cint \<Rightarrow> (nat \<Rightarrow> nat \<Rightarrow> nat) \<Rightarrow> globals \<Rightarrow>
   error + globals" where
  "monteCarloThread iterations rooms incompatibilities numStudents raw g =
     bind_err (worker_setup rooms numStudents) (\<lambda>b.
     worker_loop 0 (nat (sint iterations)) rooms incompatibilities (nat (sint numStudents)) b
       raw g)"

section \<open>main\<close>

text \<open>
  Several workers.  \<open>sched\<close> lists the thread that is given the next turn, \<open>iter t\<close> counts
  the iterations thread \<open>t\<close> has finished and \<open>raw t\<close> is its private random source.  A turn is
  one iteration of the thread's loop; a thread that was not spawned or whose loop has ended
  does nothing with its turn.
\<close>

fun run_schedule ::
  "nat list \<Rightarrow> (nat \<Rightarrow> nat) \<Rightarrow> nat \<Rightarrow> nat \<Rightarrow> Room list \<Rightarrow> Incompatibility list \<Rightarrow> nat \<Rightarrow> cint \<Rightarrow>
   (nat \<Rightarrow> nat \<Rightarrow> nat \<Rightarrow> nat) \<Rightarrow> globals \<Rightarrow> error + globals" where
  "run_schedule [] iter threadCount iterations rooms incompatibilities numStudents b raw g =
     Inr g"
| "run_schedule (t # sched) iter threadCount iterations rooms incompatibilities numStudents b
     raw g =
     (if t < threadCount \<and> iter t < iterations then
        bind_err (generate_assignment numStudents b (raw t (iter t))) (\<lambda>currentAssignment.
        bind_err (attempt rooms incompatibilities currentAssignment g) (\<lambda>g'.
        run_schedule sched (iter(t := iter t + 1)) threadCount iterations rooms
          incompatibilities numStudents b raw g'))
      else run_schedule sched iter threadCount iterations rooms incompatibilities numStudents
             b raw g)"

text \<open>
  The candidates that the turns of a schedule generate, in order, when the distribution is
  well formed.
\<close>

fun scheduled_candidates ::
  "nat list \<Rightarrow> (nat \<Rightarrow> nat) \<Rightarrow> nat \<Rightarrow> nat \<Rightarrow> nat \<Rightarrow> cint \<Rightarrow> (nat \<Rightarrow> nat \<Rightarrow> nat \<Rightarrow> nat) \<Rightarrow>
   cint list list" where
  "scheduled_candidates [] iter threadCount iterations numStudents b raw = []"
| "scheduled_candidates (t # sched) iter threadCount iterations numStudents b raw =
     (if t < threadCount \<and> iter t < iterations then
        random_assignment numStudents b (raw t (iter t))
          # scheduled_candidates sched (iter(t := iter t + 1)) threadCount iterations
              numStudents b raw
      else scheduled_candidates sched iter threadCount iterations numStudents b raw)"

text \<open>
  A schedule of a whole run gives each of the \<open>threadCount\<close> spawned threads exactly its
  \<open>iterations\<close> turns and no turn to anyone else, so that every thread can be joined.
\<close>

definition complete_schedule :: "nat \<Rightarrow> nat \<Rightarrow> nat list \<Rightarrow> bool" where
  "complete_schedule threadCount iterations sched \<longleftrightarrow>
     list_all (\<lambda>t. t < threadCount) sched \<and>
     list_all (\<lambda>t. count_list sched t = iterations) [0..<threadCount]"

text \<open>
  Lines 161--174: spawn \<^verbatim>\<open>threadCount\<close> workers and join them all.  No thread is created
  when \<^verbatim>\<open>threadCount\<close> is not positive.
\<close>

definition spawn_and_join ::
  "cint \<Rightarrow> cint \<Rightarrow> Room list \<Rightarrow> Incompatibility list \<Rightarrow> cint \<Rightarrow> nat list \<Rightarrow>
   (nat \<Rightarrow> nat \<Rightarrow> nat \<Rightarrow> nat) \<Rightarrow> globals \<Rightarrow> error + globals" where
  "spawn_and_join threadCount iterations rooms incompatibilities numStudents sched raw g =
     (if 0 < sint threadCount then
        bind_err (worker_setup rooms numStudents) (\<lambda>b.
        run_schedule sched (\<lambda>t. 0) (nat (sint threadCount)) (nat (sint iterations)) rooms
          incompatibilities (nat (sint numStudents)) b raw g)
      else Inr g)"

text \<open>Lines 144--148: every third pair of adjacent students is incompatible.\<close>

function make_incompatibilities :: "nat \<Rightarrow> nat \<Rightarrow> Incompatibility list" where
  "make_incompatibilities i numStudents =
     (if i + 1 < numStudents then
        \<lparr>student1 = word_of_nat i, student2 = word_of_nat (i + 1)\<rparr>
          # make_incompatibilities (i + 3) numStudents
      else [])"
  by pat_completeness auto
termination
  by (relation "measure (\<lambda>(i, numStudents). numStudents - i)") auto

declare make_incompatibilities.simps [simp del]

text \<open>
  Lines 128--174 of \<^verbatim>\<open>main\<close>.  \<open>argv1\<close> is \<open>None\<close> when no argument is given and otherwise
  the value \<^verbatim>\<open>std::atoi\<close> returns for the first argument.
\<close>

definition main_search ::
  "cint option \<Rightarrow> nat list \<Rightarrow> (nat \<Rightarrow> nat \<Rightarrow> nat \<Rightarrow> nat) \<Rightarrow> error + globals" where
  "main_search argv1 sched raw =
     (let threadCount = (case argv1 of None \<Rightarrow> 4 | Some n \<Rightarrow> n);
          numRooms = 10;
          numStudents = 100;
          rooms = replicate numRooms \<lparr>capacity = 10\<rparr>;
          incompatibilities = make_incompatibilities 0 numStudents;
          iterationsPerThread = 100000
      in spawn_and_join threadCount iterationsPerThread rooms incompatibilities
           (word_of_nat numStudents) sched raw initial_globals)"

text \<open>Lines 186--188: the report reads \<^verbatim>\<open>globalBestAssignment[i]\<close> for every student.\<close>

fun report_rooms :: "nat list \<Rightarrow> cint list \<Rightarrow> error + cint list" where
  "report_rooms [] assignment = Inr []"
| "report_rooms (i # rest) assignment =
     bind_err (at_size assignment i) (\<lambda>room.
     bind_err (report_rooms rest assignment) (\<lambda>rooms. Inr (room # rooms)))"

text \<open>The whole of \<^verbatim>\<open>main\<close>: its result is the exit status, which line 194 makes 0.\<close>

definition main :: "cint option \<Rightarrow> nat list \<Rightarrow> (nat \<Rightarrow> nat \<Rightarrow> nat \<Rightarrow> nat) \<Rightarrow> error + cint" where
  "main argv1 sched raw =
     bind_err (main_search argv1 sched raw) (\<lambda>g.
     bind_err (report_rooms [0..<100] (globalBestAssignment g)) (\<lambda>printed.
     Inr 0))"

section \<open>The penalty as the specification words it\<close>

text \<open>The number of students whose entry is the index of room \<open>i\<close>.\<close>

definition occupancy :: "cint list \<Rightarrow> nat \<Rightarrow> nat" where
  "occupancy assignment i = length (filter (\<lambda>room. sint room = int i) assignment)"

definition overflow_penalty :: "cint list \<Rightarrow> Room list \<Rightarrow> nat \<Rightarrow> int" where
  "overflow_penalty assignment rooms i =
     (if sint (capacity (rooms ! i)) < int (occupancy assignment i) then
        (int (occupancy assignment i) - sint (capacity (rooms ! i))) * 10
      else 0)"

definition shares_room :: "cint list \<Rightarrow> Incompatibility \<Rightarrow> bool" where
  "shares_room assignment inc \<longleftrightarrow>
     assignment ! nat (sint (student1 inc)) = assignment ! nat (sint (student2 inc))"

definition penalty_sum :: "cint list \<Rightarrow> Room list \<Rightarrow> Incompatibility list \<Rightarrow> int" where
  "penalty_sum assignment rooms incompatibilities =
     sum_list (map (overflow_penalty assignment rooms) [0..<length rooms]) +
     5 * int (length (filter (shares_room assignment) incompatibilities))"

text \<open>Both students of every incompatibility are indices of the assignment.\<close>

definition students_in_range :: "cint list \<Rightarrow> Incompatibility list \<Rightarrow> bool" where
  "students_in_range assignment incompatibilities \<longleftrightarrow>
     list_all (\<lambda>inc. 0 \<le> sint (student1 inc) \<and> sint (student1 inc) < int (length assignment) \<and>
                     0 \<le> sint (student2 inc) \<and> sint (student2 inc) < int (length assignment))
       incompatibilities"

text \<open>
  A problem instance that meets the data model and fits the machine: at least one and at
  most \<open>INT_MAX\<close> rooms, no negative capacity, a student count that is not negative, every
  incompatibility between two of the students, and a largest possible penalty within
  \<^verbatim>\<open>int\<close>.
\<close>

definition valid_problem :: "Room list \<Rightarrow> Incompatibility list \<Rightarrow> cint \<Rightarrow> bool" where
  "valid_problem rooms incompatibilities numStudents \<longleftrightarrow>
     rooms \<noteq> [] \<and> int (length rooms) \<le> 2147483647 \<and>
     list_all (\<lambda>r. 0 \<le> sint (capacity r)) rooms \<and>
     0 \<le> sint numStudents \<and>
     students_in_range (replicate (nat (sint numStudents)) 0) incompatibilities \<and>
     10 * sint numStudents + 5 * int (length incompatibilities) \<le> 2147483647"

section \<open>Relabelling the rooms\<close>

text \<open>
  The number of room indices: an entry of an assignment is an \<^verbatim>\<open>int\<close>, and line 54 takes it
  for a room index when it is not negative and below \<^verbatim>\<open>static_cast<int>(roomUsage.size())\<close>.
  For a list of at most \<open>INT_MAX\<close> rooms this is the length of the list.
\<close>

definition room_count :: "Room list \<Rightarrow> nat" where
  "room_count rooms = nat (sint (size_to_int (length rooms)))"

text \<open>\<open>\<pi>\<close> permutes the indices below \<open>m\<close>.\<close>

definition is_permutation :: "(nat \<Rightarrow> nat) \<Rightarrow> nat \<Rightarrow> bool" where
  "is_permutation \<pi> m \<longleftrightarrow> list_all (\<lambda>j. \<pi> j < m) [0..<m] \<and> distinct (map \<pi> [0..<m])"

text \<open>An entry that is a room index is renamed by \<open>\<pi>\<close>; any other entry stays as it is.\<close>

definition relabel_entry :: "(nat \<Rightarrow> nat) \<Rightarrow> nat \<Rightarrow> cint \<Rightarrow> cint" where
  "relabel_entry \<pi> m room =
     (if 0 \<le> sint room \<and> nat (sint room) < m then word_of_nat (\<pi> (nat (sint room))) else room)"

text \<open>The room list renamed by the same \<open>\<pi>\<close>: the room at index \<open>\<pi> j\<close> is the old room \<open>j\<close>.\<close>

definition relabel_rooms :: "(nat \<Rightarrow> nat) \<Rightarrow> nat \<Rightarrow> Room list \<Rightarrow> Room list" where
  "relabel_rooms \<pi> m rooms =
     map (\<lambda>k. case find (\<lambda>j. \<pi> j = k) [0..<m] of Some j \<Rightarrow> rooms ! j | None \<Rightarrow> rooms ! k)
       [0..<length rooms]"

text \<open>The permutation extended by the identity to the indices from \<open>m\<close> on.\<close>

definition extend_perm :: "(nat \<Rightarrow> nat) \<Rightarrow> nat \<Rightarrow> nat \<Rightarrow> nat" where
  "extend_perm \<pi> m j = (if j < m then \<pi> j else j)"

text \<open>Usage vectors that agree up to the permutation.\<close>

definition permuted :: "(nat \<Rightarrow> nat) \<Rightarrow> nat \<Rightarrow> nat \<Rightarrow> cint list \<Rightarrow> cint list \<Rightarrow> bool" where
  "permuted \<pi> m n u u' \<longleftrightarrow>
     length u = n \<and> length u' = n \<and> (\<forall>j<n. u' ! extend_perm \<pi> m j = u ! j)"

section \<open>Quantities used to describe the loops\<close>

text \<open>
  What the first loop adds to \<open>roomUsage[i]\<close> for a usage vector of length \<open>n\<close>: the number of
  entries that pass its guard and name index \<open>i\<close>.
\<close>

definition counted :: "cint list \<Rightarrow> nat \<Rightarrow> nat \<Rightarrow> nat" where
  "counted assignment n i =
     length (filter (\<lambda>room. 0 \<le> sint room \<and> sint room < sint (size_to_int n) \<and>
                            nat (sint room) = i) assignment)"

text \<open>What the second loop adds for one room, and for all rooms from index \<open>i\<close> on.\<close>

definition room_penalty :: "cint \<Rightarrow> Room \<Rightarrow> int" where
  "room_penalty u r =
     (if sint (capacity r) < sint u then (sint u - sint (capacity r)) * 10 else 0)"

definition capacity_total :: "nat \<Rightarrow> Room list \<Rightarrow> cint list \<Rightarrow> int" where
  "capacity_total i rooms roomUsage =
     sum_list (map (\<lambda>j. room_penalty (roomUsage ! j) (rooms ! j)) [i..<length rooms])"

section \<open>Basic facts about the error monad and checked integers\<close>

lemma bind_err_cong:
  "m = m' \<Longrightarrow> (\<And>x. m' = Inr x \<Longrightarrow> f x = f' x) \<Longrightarrow> bind_err m f = bind_err m' f'"
  by (auto simp: bind_err_def split: sum.splits)

lemma bind_err_Inr_iff:
  "bind_err m f = Inr y \<longleftrightarrow> (\<exists>x. m = Inr x \<and> f x = Inr y)"
  by (cases m) (simp_all add: bind_err_def)

lemma bind_err_Inr [simp]: "bind_err (Inr x) f = f x"
  by (simp add: bind_err_def)

lemma bind_err_Inl [simp]: "bind_err (Inl e) f = Inl e"
  by (simp add: bind_err_def)

lemma sint_word_of_int_cint:
  "- 2147483648 \<le> z \<Longrightarrow> z \<le> 2147483647 \<Longrightarrow> sint (word_of_int z :: cint) = z"
  by (simp add: sint_sbintrunc' signed_take_bit_int_eq_self)

lemma int_result_Inr_iff:
  "int_result z = Inr w \<longleftrightarrow> - 2147483648 \<le> z \<and> z \<le> 2147483647 \<and> w = word_of_int z"
  by (auto simp: int_result_def)

lemma int_result_sint: "int_result z = Inr w \<Longrightarrow> sint w = z"
  by (auto simp: int_result_def sint_word_of_int_cint split: if_splits)

lemma int_result_not_oob: "int_result z \<noteq> Inl OutOfBounds"
  by (simp add: int_result_def)

lemma sint_cint_range: "- 2147483648 \<le> sint (w :: cint) \<and> sint w \<le> 2147483647"
  using sint_ge [of w] sint_lt [of w] by simp

section \<open>The first loop\<close>

lemma sint_size_to_int_le: "sint (size_to_int n) \<le> int n"
proof -
  have "sint (size_to_int n) = signed_take_bit 31 (int n)"
    by (simp add: size_to_int_def signed_of_nat)
  also have "\<dots> \<le> int n"
    by (simp add: signed_take_bit_int_less_eq_self_iff)
  finally show ?thesis .
qed

lemma sint_size_to_int_small:
  "int n \<le> 2147483647 \<Longrightarrow> sint (size_to_int n) = int n"
  by (simp add: size_to_int_def signed_of_nat signed_take_bit_int_eq_self)

lemma guard_in_bounds:
  "0 \<le> sint room \<Longrightarrow> sint room < sint (size_to_int n) \<Longrightarrow> nat (sint room) < n"
  using sint_size_to_int_le [of n] by linarith

lemma at_int_guarded:
  "0 \<le> sint room \<Longrightarrow> sint room < sint (size_to_int (length v)) \<Longrightarrow>
   at_int v room = Inr (v ! nat (sint room))"
  using guard_in_bounds [of room "length v"] by (simp add: at_int_def)

lemma add_int_1: "add_int u 1 = int_result (sint u + 1)"
  by (simp add: add_int_def)

lemma count_usage_length:
  "count_usage a u = Inr u' \<Longrightarrow> length u' = length u"
proof (induction a arbitrary: u)
  case Nil
  then show ?case by simp
next
  case (Cons room rest)
  show ?case
  proof (cases "0 \<le> sint room \<and> sint room < sint (size_to_int (length u))")
    case True
    with Cons.prems obtain x where "count_usage rest (u[nat (sint room) := x]) = Inr u'"
      by (auto simp: bind_err_Inr_iff)
    from Cons.IH [OF this] show ?thesis by simp
  next
    case False
    with Cons show ?thesis by auto
  qed
qed

lemma count_usage_not_oob: "count_usage a u \<noteq> Inl OutOfBounds"
proof (induction a arbitrary: u)
  case Nil
  show ?case by simp
next
  case (Cons room rest)
  show ?case
  proof (cases "0 \<le> sint room \<and> sint room < sint (size_to_int (length u))")
    case True
    then have "at_int u room = Inr (u ! nat (sint room))"
      by (simp add: at_int_guarded)
    with True Cons.IH show ?thesis
      by (cases "int_result (sint (u ! nat (sint room)) + 1)")
         (simp_all add: add_int_1 int_result_def split: if_splits)
  next
    case False
    with Cons.IH show ?thesis by auto
  qed
qed

lemma count_usage_step:
  assumes "0 \<le> sint room" "sint room < sint (size_to_int (length u))"
  shows "count_usage (room # rest) u =
           bind_err (int_result (sint (u ! nat (sint room)) + 1))
             (\<lambda>x. count_usage rest (u[nat (sint room) := x]))"
  using assms by (simp add: at_int_guarded add_int_1)

lemma count_usage_skip:
  assumes "\<not> (0 \<le> sint room \<and> sint room < sint (size_to_int (length u)))"
  shows "count_usage (room # rest) u = count_usage rest u"
  using assms by auto

lemma counted_Cons:
  "counted (room # rest) n i =
     (if 0 \<le> sint room \<and> sint room < sint (size_to_int n) \<and> nat (sint room) = i
      then Suc (counted rest n i) else counted rest n i)"
  by (simp add: counted_def)

lemma count_usage_value:
  assumes "\<forall>i<length u. 0 \<le> sint (u ! i) \<and> sint (u ! i) + int (length a) \<le> 2147483647"
  shows "\<exists>u'. count_usage a u = Inr u' \<and> length u' = length u \<and>
           (\<forall>i<length u. sint (u' ! i) = sint (u ! i) + int (counted a (length u) i))"
  using assms
proof (induction a arbitrary: u)
  case Nil
  show ?case by (simp add: counted_def)
next
  case (Cons room rest)
  show ?case
  proof (cases "0 \<le> sint room \<and> sint room < sint (size_to_int (length u))")
    case True
    define k where "k = nat (sint room)"
    have k: "k < length u" using True guard_in_bounds k_def by blast
    define x :: cint where "x = word_of_int (sint (u ! k) + 1)"
    have uk: "0 \<le> sint (u ! k)" "sint (u ! k) + 1 + int (length rest) \<le> 2147483647"
      using Cons.prems k by auto
    then have res: "int_result (sint (u ! k) + 1) = Inr x"
      by (simp add: int_result_def x_def)
    have sx: "sint x = sint (u ! k) + 1"
      using res by (rule int_result_sint)
    have step: "count_usage (room # rest) u = count_usage rest (u[k := x])"
      using True res by (simp add: count_usage_step k_def del: count_usage.simps)
    have pre: "\<forall>i<length (u[k := x]).
                 0 \<le> sint (u[k := x] ! i) \<and> sint (u[k := x] ! i) + int (length rest) \<le> 2147483647"
    proof (intro allI impI)
      fix i assume i: "i < length (u[k := x])"
      show "0 \<le> sint (u[k := x] ! i) \<and> sint (u[k := x] ! i) + int (length rest) \<le> 2147483647"
      proof (cases "i = k")
        case True
        with k sx uk show ?thesis by simp
      next
        case False
        with i Cons.prems show ?thesis by auto
      qed
    qed
    from Cons.IH [OF pre] obtain u' where u':
      "count_usage rest (u[k := x]) = Inr u'" "length u' = length u"
      "\<forall>i<length u. sint (u' ! i) = sint (u[k := x] ! i) + int (counted rest (length u) i)"
      by auto
    have "\<forall>i<length u. sint (u' ! i) = sint (u ! i) + int (counted (room # rest) (length u) i)"
    proof (intro allI impI)
      fix i assume i: "i < length u"
      show "sint (u' ! i) = sint (u ! i) + int (counted (room # rest) (length u) i)"
      proof (cases "i = k")
        case True
        with u'(3) i k sx \<open>0 \<le> sint room \<and> sint room < sint (size_to_int (length u))\<close>
        show ?thesis by (simp add: counted_Cons k_def)
      next
        case False
        with u'(3) i show ?thesis by (auto simp: counted_Cons k_def)
      qed
    qed
    with step u' show ?thesis by simp
  next
    case False
    have pre: "\<forall>i<length u. 0 \<le> sint (u ! i) \<and> sint (u ! i) + int (length rest) \<le> 2147483647"
      using Cons.prems by auto
    from Cons.IH [OF pre] obtain u' where u':
      "count_usage rest u = Inr u'" "length u' = length u"
      "\<forall>i<length u. sint (u' ! i) = sint (u ! i) + int (counted rest (length u) i)"
      by auto
    from False have "\<forall>i. counted (room # rest) (length u) i = counted rest (length u) i"
      by (auto simp: counted_Cons)
    with u' False show ?thesis by (simp del: count_usage.simps add: count_usage_skip)
  qed
qed

section \<open>The second and third loop\<close>

lemma room_penalty_nonneg: "0 \<le> room_penalty u r"
  by (simp add: room_penalty_def)

lemma capacity_total_nonneg: "0 \<le> capacity_total i rooms u"
  unfolding capacity_total_def by (rule sum_list_nonneg) (auto simp: room_penalty_nonneg)

lemma capacity_total_step:
  "i < length rooms \<Longrightarrow>
   capacity_total i rooms u = room_penalty (u ! i) (rooms ! i) + capacity_total (Suc i) rooms u"
  by (simp add: capacity_total_def upt_conv_Cons)

lemma capacity_total_end: "length rooms \<le> i \<Longrightarrow> capacity_total i rooms u = 0"
  by (simp add: capacity_total_def)

lemma int_result_sint_self: "int_result (sint (w :: cint)) = Inr w"
  using sint_cint_range [of w] by (simp add: int_result_def)

lemma int_result_overflow: "2147483647 < z \<Longrightarrow> int_result z = Inl SignedOverflow"
  by (simp add: int_result_def)

lemma int_result_ok:
  "- 2147483648 \<le> z \<Longrightarrow> z \<le> 2147483647 \<Longrightarrow> int_result z = Inr (word_of_int z)"
  by (simp add: int_result_def)

lemma int_result_cases [case_names ok overflow]:
  obtains w where "int_result z = Inr w" "sint w = z" "- 2147483648 \<le> z" "z \<le> 2147483647"
  | "int_result z = Inl SignedOverflow" "z < - 2147483648 \<or> 2147483647 < z"
proof (cases "- 2147483648 \<le> z \<and> z \<le> 2147483647")
  case True
  then have "int_result z = Inr (word_of_int z)" by (simp add: int_result_def)
  moreover from this have "sint (word_of_int z :: cint) = z" by (rule int_result_sint)
  ultimately show ?thesis using True that(1) by blast
next
  case False
  then have "int_result z = Inl SignedOverflow" by (auto simp: int_result_def)
  with False that(2) show ?thesis by arith
qed

text \<open>One pass of the second loop for a room over capacity.\<close>

lemma over_capacity_step:
  assumes "sint c < sint u" "0 \<le> sint p"
  shows "bind_err (sub_int u c) (\<lambda>d. bind_err (mul_int d 10) (\<lambda>m. bind_err (add_int p m) f)) =
           bind_err (int_result (sint p + (sint u - sint c) * 10)) f"
proof (cases "sint u - sint c" rule: int_result_cases)
  case overflow
  with assms have "2147483647 < sint p + (sint u - sint c) * 10" by arith
  with overflow show ?thesis by (simp add: sub_int_def int_result_overflow)
next
  case d: (ok d)
  show ?thesis
  proof (cases "sint d * 10" rule: int_result_cases)
    case overflow
    with assms d have "2147483647 < sint p + (sint u - sint c) * 10" by arith
    with overflow d show ?thesis by (simp add: sub_int_def mul_int_def int_result_overflow)
  next
    case (ok m)
    with d show ?thesis by (simp add: sub_int_def mul_int_def add_int_def)
  qed
qed

lemma capacity_penalty_eq:
  assumes "length u = length rooms" "0 \<le> sint p"
  shows "capacity_penalty i rooms u p = int_result (sint p + capacity_total i rooms u)"
  using assms(2)
proof (induction "length rooms - i" arbitrary: i p)
  case 0
  then have "length rooms \<le> i" by simp
  then show ?case
    by (simp add: capacity_penalty.simps capacity_total_end int_result_sint_self)
next
  case (Suc n)
  then have i: "i < length rooms" by simp
  have n: "n = length rooms - (i + 1)" using Suc.hyps(2) by simp
  let ?u = "u ! i" and ?r = "rooms ! i"
  have tot: "capacity_total i rooms u = room_penalty ?u ?r + capacity_total (i + 1) rooms u"
    using i by (simp add: capacity_total_step)
  have rest: "0 \<le> capacity_total (i + 1) rooms u" by (rule capacity_total_nonneg)
  have unfold: "capacity_penalty i rooms u p =
      (if sint (capacity ?r) < sint ?u then
         bind_err (sub_int ?u (capacity ?r)) (\<lambda>d.
         bind_err (mul_int d 10) (\<lambda>m.
         bind_err (add_int p m) (\<lambda>p'. capacity_penalty (i + 1) rooms u p')))
       else capacity_penalty (i + 1) rooms u p)"
    using i assms(1) by (subst capacity_penalty.simps) (simp add: at_size_def)
  show ?case
  proof (cases "sint (capacity ?r) < sint ?u")
    case False
    then have "room_penalty ?u ?r = 0" by (simp add: room_penalty_def)
    with False unfold tot Suc.hyps(1) [OF n Suc.prems] show ?thesis by simp
  next
    case True
    define z where "z = sint p + (sint ?u - sint (capacity ?r)) * 10"
    have rp: "room_penalty ?u ?r = (sint ?u - sint (capacity ?r)) * 10"
      using True by (simp add: room_penalty_def)
    have z0: "0 \<le> z" using True Suc.prems by (simp add: z_def)
    have zt: "sint p + capacity_total i rooms u = z + capacity_total (i + 1) rooms u"
      by (simp add: tot rp z_def)
    have step: "capacity_penalty i rooms u p =
                  bind_err (int_result z) (\<lambda>p'. capacity_penalty (i + 1) rooms u p')"
      unfolding z_def using True unfold over_capacity_step [OF True Suc.prems] by simp
    show ?thesis
    proof (cases z rule: int_result_cases)
      case overflow
      with z0 rest have "2147483647 < z + capacity_total (i + 1) rooms u" by arith
      with overflow step show ?thesis by (simp add: zt int_result_overflow)
    next
      case (ok w)
      have "capacity_penalty (i + 1) rooms u w = int_result (sint w + capacity_total (i + 1) rooms u)"
        using z0 ok by (intro Suc.hyps(1) [OF n]) simp
      with ok step show ?thesis by (simp add: zt)
    qed
  qed
qed

subsection \<open>The third loop\<close>

lemma at_int_in_range:
  "0 \<le> sint i \<Longrightarrow> sint i < int (length v) \<Longrightarrow> at_int v i = Inr (v ! nat (sint i))"
  by (simp add: at_int_def)

lemma add_int_5: "add_int p 5 = int_result (sint p + 5)"
  by (simp add: add_int_def)

lemma incompatibility_penalty_eq:
  assumes "students_in_range a incs" "0 \<le> sint p"
  shows "incompatibility_penalty a incs p =
           int_result (sint p + 5 * int (length (filter (shares_room a) incs)))"
  using assms
proof (induction incs arbitrary: p)
  case Nil
  show ?case by (simp add: int_result_sint_self)
next
  case (Cons inc rest)
  from Cons.prems(1) have rng:
    "0 \<le> sint (student1 inc)" "sint (student1 inc) < int (length a)"
    "0 \<le> sint (student2 inc)" "sint (student2 inc) < int (length a)"
    and rest: "students_in_range a rest"
    by (simp_all add: students_in_range_def)
  let ?c = "int (length (filter (shares_room a) rest))"
  show ?case
  proof (cases "shares_room a inc")
    case False
    then show ?thesis
      using rng Cons.IH [OF rest Cons.prems(2)]
      by (simp add: at_int_in_range shares_room_def)
  next
    case True
    have cnt: "int (length (filter (shares_room a) (inc # rest))) = 1 + ?c"
      using True by simp
    have step: "incompatibility_penalty a (inc # rest) p =
                  bind_err (int_result (sint p + 5)) (\<lambda>p'. incompatibility_penalty a rest p')"
      using True rng by (simp add: at_int_in_range shares_room_def add_int_5)
    show ?thesis
    proof (cases "sint p + 5" rule: int_result_cases)
      case overflow
      with Cons.prems(2) have "2147483647 < sint p + 5 * (1 + ?c)" by arith
      with overflow step show ?thesis unfolding cnt by (simp add: int_result_overflow)
    next
      case (ok q)
      have "incompatibility_penalty a rest q = int_result (sint q + 5 * ?c)"
        using ok Cons.prems(2) by (intro Cons.IH [OF rest]) simp
      moreover have "sint q + 5 * ?c = sint p + 5 * (1 + ?c)"
        using ok by simp
      ultimately have "incompatibility_penalty a rest q = int_result (sint p + 5 * (1 + ?c))"
        by simp
      with ok(1) step show ?thesis unfolding cnt by simp
    qed
  qed
qed

section \<open>The value of evaluateSolution\<close>

lemma counted_eq_occupancy:
  assumes "int n \<le> 2147483647" "i < n"
  shows "counted a n i = occupancy a i"
proof -
  have "(0 \<le> sint room \<and> sint room < sint (size_to_int n) \<and> nat (sint room) = i) \<longleftrightarrow>
        sint room = int i" for room :: cint
    using assms by (auto simp: sint_size_to_int_small)
  then show ?thesis by (simp add: counted_def occupancy_def)
qed

lemma penalty_sum_nonneg: "0 \<le> penalty_sum a rooms incs"
proof -
  have "0 \<le> sum_list (map (overflow_penalty a rooms) [0..<length rooms])"
    by (rule sum_list_nonneg) (auto simp: overflow_penalty_def)
  then show ?thesis by (simp add: penalty_sum_def)
qed

lemma count_usage_zero:
  assumes "int (length a) \<le> 2147483647"
  shows "\<exists>u. count_usage a (replicate n 0) = Inr u \<and> length u = n \<and>
           (\<forall>i<n. sint (u ! i) = int (counted a n i))"
  using count_usage_value [of "replicate n 0" a] assms by simp

lemma capacity_total_occupancy:
  assumes "length u = length rooms" "\<forall>i<length rooms. sint (u ! i) = int (occupancy a i)"
  shows "capacity_total 0 rooms u = sum_list (map (overflow_penalty a rooms) [0..<length rooms])"
  unfolding capacity_total_def
  by (rule arg_cong [where f = sum_list], rule map_cong)
     (use assms in \<open>auto simp: room_penalty_def overflow_penalty_def\<close>)

lemma evaluateSolution_eq:
  assumes "students_in_range a incs"
    and "int (length rooms) \<le> 2147483647"
    and "int (length a) \<le> 2147483647"
  shows "evaluateSolution a rooms incs = int_result (penalty_sum a rooms incs)"
proof -
  let ?cap = "sum_list (map (overflow_penalty a rooms) [0..<length rooms])"
  let ?inc = "5 * int (length (filter (shares_room a) incs))"
  from count_usage_zero [OF assms(3), of "length rooms"] obtain u where u:
    "count_usage a (replicate (length rooms) 0) = Inr u" "length u = length rooms"
    "\<forall>i<length rooms. sint (u ! i) = int (counted a (length rooms) i)"
    by blast
  from u(3) assms(2) have occ: "\<forall>i<length rooms. sint (u ! i) = int (occupancy a i)"
    by (simp add: counted_eq_occupancy)
  have cap: "capacity_penalty 0 rooms u 0 = int_result ?cap"
    using capacity_penalty_eq [OF u(2), of 0 0] capacity_total_occupancy [OF u(2) occ] by simp
  have cap0: "0 \<le> ?cap"
    by (rule sum_list_nonneg) (auto simp: overflow_penalty_def)
  have eval: "evaluateSolution a rooms incs =
                bind_err (int_result ?cap) (\<lambda>p. incompatibility_penalty a incs p)"
    by (simp add: evaluateSolution_def u(1) cap)
  show ?thesis
  proof (cases ?cap rule: int_result_cases)
    case overflow
    with cap0 have "2147483647 < ?cap + ?inc" by arith
    with overflow eval show ?thesis by (simp add: penalty_sum_def int_result_overflow)
  next
    case (ok p)
    with cap0 have "incompatibility_penalty a incs p = int_result (sint p + ?inc)"
      by (intro incompatibility_penalty_eq [OF assms(1)]) simp
    with ok eval show ?thesis by (simp add: penalty_sum_def)
  qed
qed

lemma evaluateSolution_value:
  assumes "students_in_range a incs"
    and "int (length rooms) \<le> 2147483647"
    and "int (length a) \<le> 2147483647"
    and "penalty_sum a rooms incs \<le> 2147483647"
  shows "\<exists>p. evaluateSolution a rooms incs = Inr p \<and> sint p = penalty_sum a rooms incs"
proof (cases "penalty_sum a rooms incs" rule: int_result_cases)
  case (ok p)
  with evaluateSolution_eq [OF assms(1-3)] show ?thesis by simp
next
  case overflow
  with assms(4) penalty_sum_nonneg [of a rooms incs] show ?thesis by arith
qed

section \<open>The guarded update\<close>

lemma tryImprove_fitness:
  "sint (globalBestFitness (tryImprove f a g)) = min (sint (globalBestFitness g)) (sint f)"
  by (simp add: tryImprove_def)

lemma tryImprove_all_append:
  "tryImprove_all (us @ vs) g = tryImprove_all vs (tryImprove_all us g)"
  by (induction us g rule: tryImprove_all.induct) simp_all

lemma tryImprove_all_le:
  "sint (globalBestFitness (tryImprove_all us g)) \<le> sint (globalBestFitness g)"
proof (induction us g rule: tryImprove_all.induct)
  case (1 g)
  show ?case by simp
next
  case (2 f a rest g)
  have "sint (globalBestFitness (tryImprove f a g)) \<le> sint (globalBestFitness g)"
    by (simp add: tryImprove_fitness)
  with 2 show ?case by simp
qed

text \<open>
  C2.  The guarded block overwrites the stored fitness and the stored assignment together
  when the candidate's fitness is strictly less than the stored one, and leaves the globals
  as they are when it is equal or greater; a tie does not replace.
\<close>

theorem tryImprove_replaces_iff_strictly_less:
  "(sint fitness < sint (globalBestFitness g) \<longrightarrow>
      globalBestFitness (tryImprove fitness a g) = fitness \<and>
      globalBestAssignment (tryImprove fitness a g) = a) \<and>
   (sint (globalBestFitness g) \<le> sint fitness \<longrightarrow> tryImprove fitness a g = g)"
  by (simp add: tryImprove_def)

theorem tryImprove_replaces_iff_strictly_less_witness:
  "sint (5 :: cint) <
     sint (globalBestFitness \<lparr>globalBestFitness = 10, globalBestAssignment = [1, 1]\<rparr>) \<and>
   tryImprove 5 [0, 1] \<lparr>globalBestFitness = 10, globalBestAssignment = [1, 1]\<rparr> =
     \<lparr>globalBestFitness = 5, globalBestAssignment = [0, 1]\<rparr> \<and>
   sint (globalBestFitness \<lparr>globalBestFitness = 10, globalBestAssignment = [1, 1]\<rparr>) \<le>
     sint (10 :: cint) \<and>
   tryImprove 10 [0, 1] \<lparr>globalBestFitness = 10, globalBestAssignment = [1, 1]\<rparr> =
     \<lparr>globalBestFitness = 10, globalBestAssignment = [1, 1]\<rparr>"
  using tryImprove_replaces_iff_strictly_less
          [of 5 "\<lparr>globalBestFitness = 10, globalBestAssignment = [1, 1]\<rparr>" "[0, 1]"]
        tryImprove_replaces_iff_strictly_less
          [of 10 "\<lparr>globalBestFitness = 10, globalBestAssignment = [1, 1]\<rparr>" "[0, 1]"]
  by simp

text \<open>
  C3.  After one guarded update the stored fitness is the minimum of its previous value and
  the candidate's; over any sequence of updates, continued by any further updates, the
  stored fitness never rises.
\<close>

theorem stored_fitness_non_increasing:
  "sint (globalBestFitness (tryImprove fitness a g)) =
     min (sint (globalBestFitness g)) (sint fitness) \<and>
   sint (globalBestFitness (tryImprove_all (us @ vs) g)) \<le>
     sint (globalBestFitness (tryImprove_all us g))"
  by (simp add: tryImprove_fitness tryImprove_all_append tryImprove_all_le)

lemma capacity_penalty_not_oob:
  assumes "length u = length rooms"
  shows "capacity_penalty 0 rooms u 0 \<noteq> Inl OutOfBounds"
  using capacity_penalty_eq [OF assms, of 0 0] by (simp add: int_result_not_oob)

lemma capacity_penalty_result:
  assumes "length u = length rooms" "capacity_penalty 0 rooms u 0 = Inr p"
  shows "sint p = capacity_total 0 rooms u"
  using capacity_penalty_eq [OF assms(1), of 0 0] assms(2) by (simp add: int_result_sint)

section \<open>Bounds that hold for every input\<close>

lemma sum_list_map_update:
  fixes f :: "'a \<Rightarrow> int"
  shows "k < length xs \<Longrightarrow>
         sum_list (map f (xs[k := x])) = sum_list (map f xs) + f x - f (xs ! k)"
proof (induction xs arbitrary: k)
  case Nil
  then show ?case by simp
next
  case (Cons y ys)
  then show ?case by (cases k) simp_all
qed

lemma count_usage_Inr_step:
  assumes "count_usage (room # rest) u = Inr u'"
    and "0 \<le> sint room" "sint room < sint (size_to_int (length u))"
  obtains x where "sint x = sint (u ! nat (sint room)) + 1"
    and "count_usage rest (u[nat (sint room) := x]) = Inr u'"
proof -
  from assms have "bind_err (int_result (sint (u ! nat (sint room)) + 1))
                     (\<lambda>x. count_usage rest (u[nat (sint room) := x])) = Inr u'"
    by (simp only: count_usage_step)
  then obtain x where "int_result (sint (u ! nat (sint room)) + 1) = Inr x"
    "count_usage rest (u[nat (sint room) := x]) = Inr u'"
    by (auto simp: bind_err_Inr_iff)
  with that int_result_sint show ?thesis by blast
qed

lemma count_usage_sum:
  assumes "count_usage a u = Inr u'"
  shows "sum_list (map sint u') \<le> sum_list (map sint u) + int (length a)"
  using assms
proof (induction a arbitrary: u)
  case Nil
  then show ?case by simp
next
  case (Cons room rest)
  show ?case
  proof (cases "0 \<le> sint room \<and> sint room < sint (size_to_int (length u))")
    case True
    then have k: "nat (sint room) < length u" using guard_in_bounds by blast
    from Cons.prems True obtain x where x: "sint x = sint (u ! nat (sint room)) + 1"
      "count_usage rest (u[nat (sint room) := x]) = Inr u'"
      by (blast elim: count_usage_Inr_step)
    from Cons.IH [OF x(2)] sum_list_map_update [OF k, of sint x] x(1)
    show ?thesis by simp
  next
    case False
    then have "count_usage (room # rest) u = count_usage rest u"
      by (rule count_usage_skip)
    with Cons.prems(1) have "count_usage rest u = Inr u'"
      by (simp del: count_usage.simps)
    from Cons.IH [OF this] show ?thesis by simp
  qed
qed

lemma count_usage_nonneg:
  assumes "count_usage a u = Inr u'" "\<forall>i<length u. 0 \<le> sint (u ! i)"
  shows "\<forall>i<length u. 0 \<le> sint (u' ! i)"
  using assms
proof (induction a arbitrary: u)
  case Nil
  then show ?case by simp
next
  case (Cons room rest)
  show ?case
  proof (cases "0 \<le> sint room \<and> sint room < sint (size_to_int (length u))")
    case True
    then have k: "nat (sint room) < length u" using guard_in_bounds by blast
    from Cons.prems(1) True obtain x where x: "sint x = sint (u ! nat (sint room)) + 1"
      "count_usage rest (u[nat (sint room) := x]) = Inr u'"
      by (blast elim: count_usage_Inr_step)
    have "\<forall>i<length (u[nat (sint room) := x]). 0 \<le> sint (u[nat (sint room) := x] ! i)"
      using Cons.prems(2) x(1) k by (auto simp: nth_list_update)
    from Cons.IH [OF x(2) this] show ?thesis by simp
  next
    case False
    then have "count_usage (room # rest) u = count_usage rest u"
      by (rule count_usage_skip)
    with Cons.prems(1) have "count_usage rest u = Inr u'"
      by (simp del: count_usage.simps)
    from Cons.IH [OF this Cons.prems(2)] show ?thesis .
  qed
qed

lemma dvd_sum_list_map:
  fixes f :: "'a \<Rightarrow> int"
  shows "(\<And>x. x \<in> set xs \<Longrightarrow> d dvd f x) \<Longrightarrow> d dvd sum_list (map f xs)"
  by (induction xs) simp_all

lemma capacity_total_dvd: "5 dvd capacity_total i rooms u"
  unfolding capacity_total_def
  by (rule dvd_sum_list_map) (simp add: room_penalty_def)

lemma capacity_total_le:
  assumes "length u = length rooms" "\<forall>i<length u. 0 \<le> sint (u ! i)"
    and "\<forall>r\<in>set rooms. 0 \<le> sint (capacity r)"
  shows "capacity_total 0 rooms u \<le> 10 * sum_list (map sint u)"
proof -
  have "capacity_total 0 rooms u \<le> sum_list (map (\<lambda>j. 10 * sint (u ! j)) [0..<length rooms])"
    unfolding capacity_total_def
  proof (rule sum_list_mono)
    fix j assume "j \<in> set [0..<length rooms]"
    then have j: "j < length rooms" by simp
    with assms(3) have "0 \<le> sint (capacity (rooms ! j))" by simp
    moreover from j assms(1,2) have "0 \<le> sint (u ! j)" by simp
    ultimately show "room_penalty (u ! j) (rooms ! j) \<le> 10 * sint (u ! j)"
      by (simp add: room_penalty_def)
  qed
  also have "\<dots> = 10 * sum_list (map (\<lambda>j. sint (u ! j)) [0..<length u])"
    by (simp add: sum_list_const_mult assms(1))
  also have "map (\<lambda>j. sint (u ! j)) [0..<length u] = map sint u"
    by (rule nth_equalityI) simp_all
  finally show ?thesis .
qed

lemma incompatibility_penalty_bounds:
  assumes "incompatibility_penalty a incs p = Inr q"
  shows "sint p \<le> sint q \<and> sint q \<le> sint p + 5 * int (length incs) \<and>
         (5 dvd sint p \<longrightarrow> 5 dvd sint q)"
  using assms
proof (induction incs arbitrary: p)
  case Nil
  then show ?case by simp
next
  case (Cons inc rest)
  show ?case
  proof (cases "at_int a (student1 inc)")
    case (Inl e)
    with Cons.prems show ?thesis by simp
  next
    case r1: (Inr r1)
    show ?thesis
    proof (cases "at_int a (student2 inc)")
      case (Inl e)
      with r1 Cons.prems show ?thesis by simp
    next
      case r2: (Inr r2)
      show ?thesis
      proof (cases "r1 = r2")
        case True
        with r1 r2 Cons.prems
        have "bind_err (add_int p 5) (\<lambda>p'. incompatibility_penalty a rest p') = Inr q"
          by simp
        then obtain p' where p': "add_int p 5 = Inr p'"
          "incompatibility_penalty a rest p' = Inr q"
          by (auto simp: bind_err_Inr_iff)
        from p'(1) have "sint p' = sint p + 5"
          by (simp add: add_int_5 int_result_sint)
        with Cons.IH [OF p'(2)] show ?thesis by auto
      next
        case False
        with r1 r2 Cons.prems have "incompatibility_penalty a rest p = Inr q" by simp
        from Cons.IH [OF this] show ?thesis by auto
      qed
    qed
  qed
qed

lemma evaluateSolution_Inr:
  assumes "evaluateSolution a rooms incs = Inr p"
  obtains u p1 where "count_usage a (replicate (length rooms) 0) = Inr u"
    and "length u = length rooms"
    and "sint p1 = capacity_total 0 rooms u"
    and "incompatibility_penalty a incs p1 = Inr p"
proof -
  from assms obtain u p1 where u: "count_usage a (replicate (length rooms) 0) = Inr u"
    and p1: "capacity_penalty 0 rooms u 0 = Inr p1"
    and p: "incompatibility_penalty a incs p1 = Inr p"
    by (auto simp: evaluateSolution_def bind_err_Inr_iff)
  from u have len: "length u = length rooms"
    using count_usage_length by fastforce
  from capacity_penalty_result [OF len p1] u len p that show ?thesis by blast
qed

lemma evaluateSolution_nonneg:
  assumes "evaluateSolution a rooms incs = Inr p"
  shows "0 \<le> sint p"
proof -
  from assms obtain u p1 where "sint p1 = capacity_total 0 rooms u"
    "incompatibility_penalty a incs p1 = Inr p"
    by (rule evaluateSolution_Inr)
  with capacity_total_nonneg [of 0 rooms u] incompatibility_penalty_bounds [of a incs p1 p]
  show ?thesis by simp
qed

lemma evaluateSolution_dvd:
  assumes "evaluateSolution a rooms incs = Inr p"
  shows "5 dvd sint p"
proof -
  from assms obtain u p1 where "sint p1 = capacity_total 0 rooms u"
    "incompatibility_penalty a incs p1 = Inr p"
    by (rule evaluateSolution_Inr)
  with capacity_total_dvd [of 0 rooms u] incompatibility_penalty_bounds [of a incs p1 p]
  show ?thesis by simp
qed

lemma evaluateSolution_less_INT_MAX:
  assumes "evaluateSolution a rooms incs = Inr p"
  shows "sint p < sint INT_MAX"
proof -
  have "sint p \<le> 2147483647" using sint_cint_range [of p] by simp
  moreover have "sint p \<noteq> 2147483647"
  proof
    assume "sint p = 2147483647"
    with evaluateSolution_dvd [OF assms] have "(5 :: int) dvd 2147483647" by simp
    then show False by presburger
  qed
  ultimately show ?thesis by (simp add: INT_MAX_def)
qed

lemma evaluateSolution_upper:
  assumes "evaluateSolution a rooms incs = Inr p"
    and "\<forall>r\<in>set rooms. 0 \<le> sint (capacity r)"
  shows "sint p \<le> 10 * int (length a) + 5 * int (length incs)"
proof -
  from assms(1) obtain u p1 where u: "count_usage a (replicate (length rooms) 0) = Inr u"
    and len: "length u = length rooms"
    and p1: "sint p1 = capacity_total 0 rooms u"
    and p: "incompatibility_penalty a incs p1 = Inr p"
    by (rule evaluateSolution_Inr)
  have "\<forall>i<length u. 0 \<le> sint (u ! i)"
    using count_usage_nonneg [OF u] len by simp
  from capacity_total_le [OF len this assms(2)] count_usage_sum [OF u]
  have "sint p1 \<le> 10 * int (length a)" by (simp add: p1 sum_list_replicate)
  with incompatibility_penalty_bounds [OF p] show ?thesis by simp
qed

lemma evaluateSolution_total:
  assumes "students_in_range a incs"
    and "\<forall>r\<in>set rooms. 0 \<le> sint (capacity r)"
    and "10 * int (length a) + 5 * int (length incs) \<le> 2147483647"
  shows "\<exists>p. evaluateSolution a rooms incs = Inr p"
proof -
  let ?n = "length rooms"
  have "int (length a) \<le> 2147483647" using assms(3) by simp
  from count_usage_zero [OF this, of ?n] obtain u where u:
    "count_usage a (replicate ?n 0) = Inr u" "length u = ?n" by blast
  have nonneg: "\<forall>i<length u. 0 \<le> sint (u ! i)"
    using count_usage_nonneg [OF u(1)] u(2) by simp
  from capacity_total_le [OF u(2) nonneg assms(2)] count_usage_sum [OF u(1)]
  have cap: "capacity_total 0 rooms u \<le> 10 * int (length a)"
    by (simp add: sum_list_replicate)
  have cap0: "0 \<le> capacity_total 0 rooms u" by (rule capacity_total_nonneg)
  from capacity_penalty_eq [OF u(2), of 0 0]
  have eq1: "capacity_penalty 0 rooms u 0 = int_result (capacity_total 0 rooms u)" by simp
  obtain p1 where p1: "capacity_penalty 0 rooms u 0 = Inr p1" "sint p1 = capacity_total 0 rooms u"
  proof (cases "capacity_total 0 rooms u" rule: int_result_cases)
    case (ok w)
    with eq1 that show ?thesis by simp
  next
    case overflow
    with cap cap0 assms(3) show ?thesis by arith
  qed
  have "int (length (filter (shares_room a) incs)) \<le> int (length incs)" by simp
  then have inc: "sint p1 + 5 * int (length (filter (shares_room a) incs))
                    \<le> 10 * int (length a) + 5 * int (length incs)"
    using cap p1(2) by linarith
  have eq2: "incompatibility_penalty a incs p1 =
               int_result (sint p1 + 5 * int (length (filter (shares_room a) incs)))"
    using cap0 p1(2) by (intro incompatibility_penalty_eq [OF assms(1)]) simp
  obtain p where "incompatibility_penalty a incs p1 = Inr p"
  proof (cases "sint p1 + 5 * int (length (filter (shares_room a) incs))" rule: int_result_cases)
    case (ok w)
    with eq2 that show ?thesis by simp
  next
    case overflow
    with inc cap0 p1(2) assms(3) show ?thesis by arith
  qed
  with u(1) p1(1) show ?thesis by (simp add: evaluateSolution_def)
qed

section \<open>Runs of the search\<close>

lemma attempt_Inr:
  assumes "attempt rooms incs c g = Inr g'"
  obtains f where "evaluateSolution c rooms incs = Inr f" "g' = tryImprove f c g"
  using assms by (auto simp: attempt_def bind_err_Inr_iff)

lemma attempt_cases:
  assumes "attempt rooms incs c g = Inr g'"
  shows "g' = g \<or>
         (globalBestAssignment g' = c \<and>
          evaluateSolution c rooms incs = Inr (globalBestFitness g'))"
proof -
  from assms obtain f where "evaluateSolution c rooms incs = Inr f" "g' = tryImprove f c g"
    by (rule attempt_Inr)
  then show ?thesis by (simp add: tryImprove_def)
qed

lemma attempt_initial:
  assumes "attempt rooms incs c initial_globals = Inr g'"
  shows "globalBestAssignment g' = c \<and> evaluateSolution c rooms incs = Inr (globalBestFitness g')"
proof -
  from assms obtain f where f: "evaluateSolution c rooms incs = Inr f"
    "g' = tryImprove f c initial_globals"
    by (rule attempt_Inr)
  from evaluateSolution_less_INT_MAX [OF f(1)] f show ?thesis
    by (simp add: tryImprove_def initial_globals_def)
qed

lemma attempts_Cons_Inr:
  assumes "attempts rooms incs (c # cs) g = Inr g'"
  obtains g1 where "attempt rooms incs c g = Inr g1" "attempts rooms incs cs g1 = Inr g'"
  using assms by (auto simp: bind_err_Inr_iff)

lemma attempts_cases:
  assumes "attempts rooms incs cs g = Inr g'"
  shows "g' = g \<or>
         (globalBestAssignment g' \<in> set cs \<and>
          evaluateSolution (globalBestAssignment g') rooms incs = Inr (globalBestFitness g'))"
  using assms
proof (induction cs arbitrary: g)
  case Nil
  then show ?case by simp
next
  case (Cons c cs)
  from Cons.prems obtain g1 where g1: "attempt rooms incs c g = Inr g1"
    "attempts rooms incs cs g1 = Inr g'"
    by (rule attempts_Cons_Inr)
  from Cons.IH [OF g1(2)] attempt_cases [OF g1(1)] show ?case by auto
qed

lemma attempts_initial:
  assumes "attempts rooms incs cs initial_globals = Inr g" "cs \<noteq> []"
  shows "globalBestAssignment g \<in> set cs \<and>
         evaluateSolution (globalBestAssignment g) rooms incs = Inr (globalBestFitness g)"
proof -
  from assms(2) obtain c rest where cs: "cs = c # rest" by (cases cs) auto
  with assms(1) have "attempts rooms incs (c # rest) initial_globals = Inr g" by simp
  then obtain g1 where g1: "attempt rooms incs c initial_globals = Inr g1"
    "attempts rooms incs rest g1 = Inr g"
    by (rule attempts_Cons_Inr)
  from attempts_cases [OF g1(2)] attempt_initial [OF g1(1)] cs show ?thesis by auto
qed

lemma attempts_append:
  "attempts rooms incs (cs @ ds) g =
     bind_err (attempts rooms incs cs g) (\<lambda>g'. attempts rooms incs ds g')"
proof (induction cs arbitrary: g)
  case Nil
  show ?case by simp
next
  case (Cons c cs)
  show ?case
  proof (cases "attempt rooms incs c g")
    case (Inl e)
    then show ?thesis by simp
  next
    case (Inr g1)
    with Cons.IH [of g1] show ?thesis by simp
  qed
qed

text \<open>A run of attempts is a sequence of guarded updates with the candidates' scores.\<close>

lemma attempts_tryImprove_all:
  assumes "attempts rooms incs cs g = Inr g'"
  shows "\<exists>fs. length fs = length cs \<and> g' = tryImprove_all (zip fs cs) g"
  using assms
proof (induction cs arbitrary: g)
  case Nil
  then show ?case by simp
next
  case (Cons c cs)
  from Cons.prems obtain g1 where g1: "attempt rooms incs c g = Inr g1"
    "attempts rooms incs cs g1 = Inr g'"
    by (rule attempts_Cons_Inr)
  from g1(1) obtain f where f: "g1 = tryImprove f c g" by (rule attempt_Inr)
  from Cons.IH [OF g1(2)] obtain fs where "length fs = length cs"
    "g' = tryImprove_all (zip fs cs) g1" by blast
  with f have "length (f # fs) = length (c # cs) \<and> g' = tryImprove_all (zip (f # fs) (c # cs)) g"
    by simp
  then show ?case by blast
qed

lemma fill_assignment_ok:
  "0 \<le> sint b \<Longrightarrow>
   fill_assignment students b raw = Inr (map (\<lambda>j. roomDist b (raw j)) students)"
  by (induction students) (simp_all add: draw_room_def)

lemma generate_assignment_ok:
  "0 \<le> sint b \<Longrightarrow> generate_assignment ns b raw = Inr (random_assignment ns b raw)"
  by (simp add: generate_assignment_def random_assignment_def fill_assignment_ok)

lemma worker_loop_attempts:
  assumes "0 \<le> sint b"
  shows "worker_loop i n rooms incs ns b raw g =
     attempts rooms incs (map (\<lambda>k. random_assignment ns b (raw k)) [i..<n]) g"
proof (induction "n - i" arbitrary: i g)
  case 0
  then show ?case by (simp add: worker_loop.simps)
next
  case (Suc d)
  then have i: "i < n" and d: "d = n - (i + 1)" by simp_all
  have "worker_loop i n rooms incs ns b raw g =
          bind_err (attempt rooms incs (random_assignment ns b (raw i)) g)
            (\<lambda>g'. worker_loop (i + 1) n rooms incs ns b raw g')"
    using i by (subst worker_loop.simps) (simp add: generate_assignment_ok [OF assms])
  also have "\<dots> = bind_err (attempt rooms incs (random_assignment ns b (raw i)) g)
            (\<lambda>g'. attempts rooms incs (map (\<lambda>k. random_assignment ns b (raw k)) [i + 1..<n]) g')"
    using Suc.hyps(1) [OF d] by simp
  finally show ?case using i by (simp add: upt_conv_Cons)
qed

lemma run_schedule_attempts:
  assumes "0 \<le> sint b"
  shows "run_schedule sched iter tc its rooms incs ns b raw g =
     attempts rooms incs (scheduled_candidates sched iter tc its ns b raw) g"
proof (induction sched arbitrary: iter g)
  case Nil
  show ?case by simp
next
  case (Cons t sched)
  show ?case
  proof (cases "t < tc \<and> iter t < its")
    case True
    let ?c = "random_assignment ns b (raw t (iter t))"
    let ?iter = "iter(t := iter t + 1)"
    have "run_schedule (t # sched) iter tc its rooms incs ns b raw g =
            bind_err (attempt rooms incs ?c g)
              (\<lambda>g'. run_schedule sched ?iter tc its rooms incs ns b raw g')"
      using True by (simp add: generate_assignment_ok [OF assms])
    also have "\<dots> = bind_err (attempt rooms incs ?c g)
              (\<lambda>g'. attempts rooms incs (scheduled_candidates sched ?iter tc its ns b raw) g')"
      by (simp only: Cons.IH)
    also have "\<dots> = attempts rooms incs (?c # scheduled_candidates sched ?iter tc its ns b raw) g"
      by simp
    also have "?c # scheduled_candidates sched ?iter tc its ns b raw =
                 scheduled_candidates (t # sched) iter tc its ns b raw"
      using True by simp
    finally show ?thesis .
  next
    case False
    then show ?thesis using Cons.IH [of iter g] by auto
  qed
qed

lemma scheduled_candidates_nonempty:
  assumes "complete_schedule tc its sched" "0 < tc" "0 < its"
  shows "scheduled_candidates sched (\<lambda>t. 0) tc its ns b raw \<noteq> []"
proof -
  from assms have "count_list sched 0 = its"
    by (simp add: complete_schedule_def list_all_iff)
  with assms(3) obtain t rest where sched: "sched = t # rest" by (cases sched) auto
  with assms(1) have "t < tc" by (simp add: complete_schedule_def)
  with sched assms(3) show ?thesis by simp
qed

lemma scheduled_candidates_subset:
  "set (scheduled_candidates sched iter tc its ns b raw) \<subseteq>
     {random_assignment ns b (raw t k) | t k. t < tc \<and> k < its}"
    (is "_ \<subseteq> ?S")
proof (induction sched arbitrary: iter)
  case Nil
  show ?case by simp
next
  case (Cons t sched)
  show ?case
  proof (cases "t < tc \<and> iter t < its")
    case True
    let ?iter = "iter(t := iter t + 1)"
    have eq: "scheduled_candidates (t # sched) iter tc its ns b raw =
            random_assignment ns b (raw t (iter t))
              # scheduled_candidates sched ?iter tc its ns b raw"
      using True by simp
    have mem: "random_assignment ns b (raw t (iter t)) \<in> ?S"
      using True by blast
    have IH: "set (scheduled_candidates sched ?iter tc its ns b raw) \<subseteq> ?S"
      by (rule Cons.IH)
    show ?thesis unfolding eq list.set using mem IH by blast
  next
    case False
    then have eq: "scheduled_candidates (t # sched) iter tc its ns b raw =
                 scheduled_candidates sched iter tc its ns b raw"
      by auto
    show ?thesis unfolding eq by (rule Cons.IH)
  qed
qed

text \<open>One thread alone, scheduled for all its iterations, is \<open>monteCarloThread\<close>.\<close>

lemma scheduled_candidates_single:
  "iter 0 + k \<le> its \<Longrightarrow>
   scheduled_candidates (replicate k 0) iter (Suc 0) its ns b raw =
     map (\<lambda>i. random_assignment ns b (raw 0 i)) [iter 0..<iter 0 + k]"
proof (induction k arbitrary: iter)
  case 0
  show ?case by simp
next
  case (Suc k)
  let ?iter = "iter(0 := iter 0 + 1)"
  from Suc.prems have lt: "iter 0 < its" and k: "?iter 0 + k \<le> its" by simp_all
  have "scheduled_candidates (replicate (Suc k) 0) iter (Suc 0) its ns b raw =
          random_assignment ns b (raw 0 (iter 0))
            # scheduled_candidates (replicate k 0) ?iter (Suc 0) its ns b raw"
    using lt by simp
  also have "scheduled_candidates (replicate k 0) ?iter (Suc 0) its ns b raw =
               map (\<lambda>i. random_assignment ns b (raw 0 i)) [?iter 0..<?iter 0 + k]"
    using k by (rule Suc.IH)
  also have "[?iter 0..<?iter 0 + k] = [Suc (iter 0)..<iter 0 + Suc k]" by simp
  also have "random_assignment ns b (raw 0 (iter 0))
               # map (\<lambda>i. random_assignment ns b (raw 0 i)) [Suc (iter 0)..<iter 0 + Suc k] =
             map (\<lambda>i. random_assignment ns b (raw 0 i)) (iter 0 # [Suc (iter 0)..<iter 0 + Suc k])"
    by simp
  also have "iter 0 # [Suc (iter 0)..<iter 0 + Suc k] = [iter 0..<iter 0 + Suc k]"
    by (rule upt_conv_Cons [symmetric]) simp
  finally show ?case .
qed

lemma run_schedule_single:
  "iter 0 + k \<le> its \<Longrightarrow>
   run_schedule (replicate k 0) iter (Suc 0) its rooms incs ns b raw g =
     worker_loop (iter 0) (iter 0 + k) rooms incs ns b (raw 0) g"
proof (induction k arbitrary: iter g)
  case 0
  show ?case by (simp add: worker_loop.simps)
next
  case (Suc k)
  let ?iter = "iter(0 := iter 0 + 1)"
  from Suc.prems have lt: "iter 0 < its" and k: "?iter 0 + k \<le> its" by simp_all
  have e: "?iter 0 = iter 0 + 1" "iter 0 + 1 + k = iter 0 + Suc k" by simp_all
  have IH: "run_schedule (replicate k 0) ?iter (Suc 0) its rooms incs ns b raw g' =
              worker_loop (iter 0 + 1) (iter 0 + Suc k) rooms incs ns b (raw 0) g'" for g'
  proof -
    have "run_schedule (replicate k 0) ?iter (Suc 0) its rooms incs ns b raw g' =
            worker_loop (?iter 0) (?iter 0 + k) rooms incs ns b (raw 0) g'"
      using k by (rule Suc.IH [where iter = "iter(0 := iter 0 + 1)" and g = g'])
    then show ?thesis by (simp only: e)
  qed
  have "run_schedule (replicate (Suc k) 0) iter (Suc 0) its rooms incs ns b raw g =
          bind_err (generate_assignment ns b (raw 0 (iter 0))) (\<lambda>c.
          bind_err (attempt rooms incs c g) (\<lambda>g'.
          run_schedule (replicate k 0) ?iter (Suc 0) its rooms incs ns b raw g'))"
    using lt by simp
  also have "\<dots> =
          bind_err (generate_assignment ns b (raw 0 (iter 0))) (\<lambda>c.
          bind_err (attempt rooms incs c g) (\<lambda>g'.
          worker_loop (iter 0 + 1) (iter 0 + Suc k) rooms incs ns b (raw 0) g'))"
    by (simp only: IH)
  also have "\<dots> = worker_loop (iter 0) (iter 0 + Suc k) rooms incs ns b (raw 0) g"
    by (subst (2) worker_loop.simps) simp
  finally show ?case .
qed

lemma spawn_and_join_single:
  "spawn_and_join 1 iterations rooms incs numStudents (replicate (nat (sint iterations)) 0) raw g =
     monteCarloThread iterations rooms incs numStudents (raw 0) g"
  using run_schedule_single
          [where iter = "\<lambda>t. 0" and k = "nat (sint iterations)" and its = "nat (sint iterations)"]
  by (simp add: spawn_and_join_def monteCarloThread_def)

text \<open>
  Nothing is checked where the distribution is built: a worker that never draws returns
  normally whatever the room list is.
\<close>

lemma monteCarloThread_no_iteration:
  "0 \<le> sint numStudents \<Longrightarrow> sint iterations \<le> 0 \<Longrightarrow>
   monteCarloThread iterations rooms incs numStudents raw g = Inr g"
  by (simp add: monteCarloThread_def worker_setup_def Let_def worker_loop.simps)

lemma students_in_range_length:
  "length a = length a' \<Longrightarrow> students_in_range a incs = students_in_range a' incs"
  by (simp add: students_in_range_def)

lemma length_random_assignment [simp]: "length (random_assignment ns b raw) = ns"
  by (simp add: random_assignment_def)

lemma worker_setup_ok:
  assumes "rooms \<noteq> []" "int (length rooms) \<le> 2147483647" "0 \<le> sint numStudents"
  shows "worker_setup rooms numStudents = Inr (size_to_int (length rooms - 1))"
proof -
  from assms(1) have n: "1 \<le> length rooms" by (cases rooms) simp_all
  then have eq: "size_to_int (length rooms) - 1 = size_to_int (length rooms - 1)"
    by (simp add: size_to_int_def of_nat_diff)
  from assms(3) show ?thesis by (simp add: worker_setup_def eq Let_def)
qed

lemma worker_bound_nonneg:
  assumes "int (length rooms) \<le> 2147483647"
  shows "0 \<le> sint (size_to_int (length rooms - 1))"
proof -
  have "sint (size_to_int (length rooms - 1)) = int (length rooms - 1)"
    using assms by (intro sint_size_to_int_small) simp
  then show ?thesis by simp
qed

lemma attempts_total:
  assumes "\<forall>c\<in>set cs. \<exists>f. evaluateSolution c rooms incs = Inr f"
  shows "\<exists>g'. attempts rooms incs cs g = Inr g'"
  using assms
proof (induction cs arbitrary: g)
  case Nil
  show ?case by simp
next
  case (Cons c cs)
  then obtain f where "evaluateSolution c rooms incs = Inr f" by auto
  then have "attempt rooms incs c g = Inr (tryImprove f c g)" by (simp add: attempt_def)
  with Cons.IH [of "tryImprove f c g"] Cons.prems show ?case by simp
qed

text \<open>
  The conditions under which every candidate of \<open>numStudents\<close> entries is scored without
  error.
\<close>

lemma candidates_evaluate:
  assumes "\<forall>r\<in>set rooms. 0 \<le> sint (capacity r)"
    and "students_in_range (replicate ns 0) incs"
    and "10 * int ns + 5 * int (length incs) \<le> 2147483647"
    and "\<forall>c\<in>set cs. length c = ns"
  shows "\<forall>c\<in>set cs. \<exists>f. evaluateSolution c rooms incs = Inr f"
proof
  fix c assume "c \<in> set cs"
  with assms(4) have len: "length c = ns" by simp
  then have "students_in_range c incs"
    using assms(2) students_in_range_length [of c "replicate ns 0" incs] by simp
  with assms(1,3) len show "\<exists>f. evaluateSolution c rooms incs = Inr f"
    by (intro evaluateSolution_total) simp_all
qed

lemma search_holds_candidate:
  assumes "\<forall>r\<in>set rooms. 0 \<le> sint (capacity r)"
    and "students_in_range (replicate ns 0) incs"
    and "10 * int ns + 5 * int (length incs) \<le> 2147483647"
    and "\<forall>c\<in>set cs. length c = ns" and "cs \<noteq> []"
  shows "\<exists>g. attempts rooms incs cs initial_globals = Inr g \<and>
             sint (globalBestFitness g) < sint INT_MAX \<and>
             globalBestAssignment g \<in> set cs \<and>
             evaluateSolution (globalBestAssignment g) rooms incs = Inr (globalBestFitness g)"
proof -
  from attempts_total [OF candidates_evaluate [OF assms(1-4)]]
  obtain g where g: "attempts rooms incs cs initial_globals = Inr g" by blast
  from attempts_initial [OF g assms(5)]
  have *: "globalBestAssignment g \<in> set cs"
    "evaluateSolution (globalBestAssignment g) rooms incs = Inr (globalBestFitness g)"
    by simp_all
  from evaluateSolution_less_INT_MAX [OF *(2)] g * show ?thesis by blast
qed

lemma monteCarloThread_attempts:
  assumes "rooms \<noteq> []" "int (length rooms) \<le> 2147483647" "0 \<le> sint numStudents"
  shows "monteCarloThread iterations rooms incs numStudents raw g =
           attempts rooms incs
             (map (\<lambda>k. random_assignment (nat (sint numStudents))
                         (size_to_int (length rooms - 1)) (raw k))
                [0..<nat (sint iterations)]) g"
proof -
  have b: "0 \<le> sint (size_to_int (length rooms - 1))"
    using assms(2) by (rule worker_bound_nonneg)
  show ?thesis
    unfolding monteCarloThread_def worker_setup_ok [OF assms] bind_err_Inr
    by (rule worker_loop_attempts [OF b])
qed

lemma spawn_and_join_attempts:
  assumes "rooms \<noteq> []" "int (length rooms) \<le> 2147483647" "0 \<le> sint numStudents"
    and "0 < sint threadCount"
  shows "spawn_and_join threadCount iterations rooms incs numStudents sched raw g =
           attempts rooms incs
             (scheduled_candidates sched (\<lambda>t. 0) (nat (sint threadCount)) (nat (sint iterations))
                (nat (sint numStudents)) (size_to_int (length rooms - 1)) raw) g"
proof -
  have b: "0 \<le> sint (size_to_int (length rooms - 1))"
    using assms(2) by (rule worker_bound_nonneg)
  have "spawn_and_join threadCount iterations rooms incs numStudents sched raw g =
          run_schedule sched (\<lambda>t. 0) (nat (sint threadCount)) (nat (sint iterations)) rooms incs
            (nat (sint numStudents)) (size_to_int (length rooms - 1)) raw g"
    using assms(4)
    by (simp only: spawn_and_join_def worker_setup_ok [OF assms(1-3)] bind_err_Inr if_True)
  then show ?thesis by (simp only: run_schedule_attempts [OF b])
qed

lemma scheduled_candidates_length:
  "\<forall>c\<in>set (scheduled_candidates sched iter tc its ns b raw). length c = ns"
  using scheduled_candidates_subset [of sched iter tc its ns b raw] by auto

section \<open>Relabelling\<close>

lemma room_count_le: "room_count rooms \<le> length rooms"
  using sint_size_to_int_le [of "length rooms"] by (simp add: room_count_def)

lemma room_count_small:
  "int (length rooms) \<le> 2147483647 \<Longrightarrow> room_count rooms = length rooms"
  by (simp add: room_count_def sint_size_to_int_small)

lemma room_count_bound: "int (room_count rooms) \<le> 2147483647"
  using sint_cint_range [of "size_to_int (length rooms)"] by (simp add: room_count_def)

lemma guard_iff:
  "0 \<le> sint w \<and> sint w < sint (size_to_int (length rooms)) \<longleftrightarrow>
   0 \<le> sint w \<and> nat (sint w) < room_count rooms"
  by (auto simp: room_count_def)

lemma sint_word_of_nat_small:
  "int k \<le> 2147483647 \<Longrightarrow> sint (word_of_nat k :: cint) = int k"
  using sint_size_to_int_small [of k] by (simp add: size_to_int_def)

lemma is_permutation_less: "is_permutation \<pi> m \<Longrightarrow> j < m \<Longrightarrow> \<pi> j < m"
  by (simp add: is_permutation_def list_all_iff)

lemma is_permutation_inj: "is_permutation \<pi> m \<Longrightarrow> inj_on \<pi> {0..<m}"
  by (simp add: is_permutation_def distinct_map)

lemma extend_less:
  assumes "is_permutation \<pi> m" "m \<le> n" "j < n"
  shows "extend_perm \<pi> m j < n"
  using assms is_permutation_less [of \<pi> m j] by (auto simp: extend_perm_def)

lemma extend_inj:
  assumes "is_permutation \<pi> m"
  shows "inj_on (extend_perm \<pi> m) {0..<n}"
proof (rule inj_onI)
  fix x y assume "x \<in> {0..<n}" "y \<in> {0..<n}" and eq: "extend_perm \<pi> m x = extend_perm \<pi> m y"
  show "x = y"
  proof (cases "x < m"; cases "y < m")
    assume "x < m" "y < m"
    with eq is_permutation_inj [OF assms] show ?thesis
      by (auto simp: extend_perm_def dest: inj_onD)
  next
    assume "x < m" "\<not> y < m"
    with eq is_permutation_less [OF assms, of x] show ?thesis by (simp add: extend_perm_def)
  next
    assume "\<not> x < m" "y < m"
    with eq is_permutation_less [OF assms, of y] show ?thesis by (simp add: extend_perm_def)
  next
    assume "\<not> x < m" "\<not> y < m"
    with eq show ?thesis by (simp add: extend_perm_def)
  qed
qed

lemma extend_bij:
  assumes "is_permutation \<pi> m" "m \<le> n"
  shows "bij_betw (extend_perm \<pi> m) {0..<n} {0..<n}"
proof -
  have "extend_perm \<pi> m ` {0..<n} \<subseteq> {0..<n}"
    using extend_less [OF assms] by auto
  with extend_inj [OF assms(1), of n] have "extend_perm \<pi> m ` {0..<n} = {0..<n}"
    by (intro endo_inj_surj) simp_all
  with extend_inj [OF assms(1), of n] show ?thesis by (simp add: bij_betw_def)
qed

lemma find_permutation:
  assumes "is_permutation \<pi> m" "j < m"
  shows "find (\<lambda>i. \<pi> i = \<pi> j) [0..<m] = Some j"
proof -
  have "\<forall>i<j. \<pi> i \<noteq> \<pi> j"
    using is_permutation_inj [OF assms(1)] assms(2) by (auto dest!: inj_onD)
  with assms(2) show ?thesis by (auto simp: find_Some_iff intro!: exI [of _ j])
qed

lemma find_outside:
  assumes "is_permutation \<pi> m" "m \<le> k"
  shows "find (\<lambda>i. \<pi> i = k) [0..<m] = None"
  using is_permutation_less [OF assms(1)] assms(2) by (fastforce simp: find_None_iff)

lemma length_relabel_rooms [simp]: "length (relabel_rooms \<pi> m rooms) = length rooms"
  by (simp add: relabel_rooms_def)

lemma relabel_rooms_nth:
  assumes "is_permutation \<pi> m" "m \<le> length rooms" "j < length rooms"
  shows "relabel_rooms \<pi> m rooms ! extend_perm \<pi> m j = rooms ! j"
proof (cases "j < m")
  case True
  then have "\<pi> j < length rooms" using is_permutation_less [OF assms(1)] assms(2) by fastforce
  with True show ?thesis
    by (simp add: relabel_rooms_def extend_perm_def find_permutation [OF assms(1)])
next
  case False
  with assms(3) show ?thesis
    by (simp add: relabel_rooms_def extend_perm_def find_outside [OF assms(1)])
qed

lemma relabel_entry_index:
  assumes "is_permutation \<pi> (room_count rooms)"
    and "0 \<le> sint w" "nat (sint w) < room_count rooms"
  shows "0 \<le> sint (relabel_entry \<pi> (room_count rooms) w)"
    and "nat (sint (relabel_entry \<pi> (room_count rooms) w)) = \<pi> (nat (sint w))"
proof -
  define k where "k = \<pi> (nat (sint w))"
  have "k < room_count rooms" unfolding k_def using assms(1,3) by (rule is_permutation_less)
  with room_count_bound [of rooms] have "int k \<le> 2147483647" by linarith
  then have s: "sint (word_of_nat k :: cint) = int k" by (rule sint_word_of_nat_small)
  have r: "relabel_entry \<pi> (room_count rooms) w = word_of_nat k"
    using assms(2,3) by (simp only: relabel_entry_def k_def simp_thms if_True)
  show "0 \<le> sint (relabel_entry \<pi> (room_count rooms) w)"
    by (simp only: r s of_nat_0_le_iff)
  show "nat (sint (relabel_entry \<pi> (room_count rooms) w)) = \<pi> (nat (sint w))"
    unfolding r s by (simp add: k_def)
qed

lemma relabel_entry_outside:
  "\<not> (0 \<le> sint w \<and> nat (sint w) < m) \<Longrightarrow> relabel_entry \<pi> m w = w"
  by (auto simp: relabel_entry_def)

lemma nat_sint_inj:
  assumes "0 \<le> sint (v :: cint)" "0 \<le> sint w" "nat (sint v) = nat (sint w)"
  shows "v = w"
proof -
  from assms have "sint v = sint w" by arith
  then show ?thesis by (rule signed_word_eqI)
qed

lemma relabel_entry_inj:
  assumes "is_permutation \<pi> (room_count rooms)"
  shows "inj (relabel_entry \<pi> (room_count rooms))"
proof (rule injI)
  let ?m = "room_count rooms"
  let ?\<rho> = "relabel_entry \<pi> ?m"
  fix v w assume eq: "?\<rho> v = ?\<rho> w"
  let ?G = "\<lambda>x :: cint. 0 \<le> sint x \<and> nat (sint x) < ?m"
  show "v = w"
  proof (cases "?G v"; cases "?G w")
    assume v: "?G v" and w: "?G w"
    from relabel_entry_index(2) [OF assms, of v] relabel_entry_index(2) [OF assms, of w] v w eq
    have "\<pi> (nat (sint v)) = \<pi> (nat (sint w))" by simp
    with is_permutation_inj [OF assms] v w have "nat (sint v) = nat (sint w)"
      by (auto dest: inj_onD)
    with v w show ?thesis by (intro nat_sint_inj) simp_all
  next
    assume v: "?G v" and w: "\<not> ?G w"
    from relabel_entry_index [OF assms, of v] v
    have "?G (?\<rho> v)" using is_permutation_less [OF assms, of "nat (sint v)"] by simp
    moreover from w have "?\<rho> w = w" by (rule relabel_entry_outside)
    ultimately show ?thesis using eq w by simp
  next
    assume v: "\<not> ?G v" and w: "?G w"
    from relabel_entry_index [OF assms, of w] w
    have "?G (?\<rho> w)" using is_permutation_less [OF assms, of "nat (sint w)"] by simp
    moreover from v have "?\<rho> v = v" by (rule relabel_entry_outside)
    ultimately show ?thesis using eq v by simp
  next
    assume "\<not> ?G v" "\<not> ?G w"
    with eq show ?thesis by (simp add: relabel_entry_outside)
  qed
qed

subsection \<open>The first loop on a relabelled assignment\<close>

lemma permuted_update:
  assumes "is_permutation \<pi> m" "m \<le> n" "permuted \<pi> m n u u'" "k < n"
  shows "permuted \<pi> m n (u[k := x]) (u'[extend_perm \<pi> m k := x])"
  unfolding permuted_def
proof (intro conjI allI impI)
  from assms(3) show "length (u[k := x]) = n" "length (u'[extend_perm \<pi> m k := x]) = n"
    by (simp_all add: permuted_def)
next
  fix j assume j: "j < n"
  from assms(3) have len: "length u = n" "length u' = n"
    and nth: "u' ! extend_perm \<pi> m j = u ! j"
    using j by (simp_all add: permuted_def)
  have lt: "extend_perm \<pi> m j < n" "extend_perm \<pi> m k < n"
    using extend_less [OF assms(1,2)] j assms(4) by simp_all
  have "extend_perm \<pi> m k = extend_perm \<pi> m j \<longleftrightarrow> k = j"
    using extend_inj [OF assms(1), of n] j assms(4) by (auto dest: inj_onD)
  with len nth lt j assms(4)
  show "u'[extend_perm \<pi> m k := x] ! extend_perm \<pi> m j = u[k := x] ! j"
    by (simp add: nth_list_update)
qed

lemma count_usage_relabel:
  assumes "is_permutation \<pi> (room_count rooms)"
    and "permuted \<pi> (room_count rooms) (length rooms) u u'"
  shows "case count_usage a u of
           Inl e \<Rightarrow> count_usage (map (relabel_entry \<pi> (room_count rooms)) a) u' = Inl e
         | Inr v \<Rightarrow> \<exists>v'. count_usage (map (relabel_entry \<pi> (room_count rooms)) a) u' = Inr v' \<and>
                        permuted \<pi> (room_count rooms) (length rooms) v v'"
  using assms(2)
proof (induction a arbitrary: u u')
  case Nil
  then show ?case by simp
next
  case (Cons w a)
  let ?m = "room_count rooms" and ?n = "length rooms"
  let ?\<rho> = "relabel_entry \<pi> ?m"
  from Cons.prems have len: "length u = ?n" "length u' = ?n" by (simp_all add: permuted_def)
  show ?case
  proof (cases "0 \<le> sint w \<and> nat (sint w) < ?m")
    case True
    define k where "k = nat (sint w)"
    have k: "k < ?m" "k < ?n" using True room_count_le [of rooms] by (simp_all add: k_def)
    have g: "0 \<le> sint w \<and> sint w < sint (size_to_int (length u))"
      using True len guard_iff [of w rooms] by simp
    have idx: "0 \<le> sint (?\<rho> w)" "nat (sint (?\<rho> w)) = \<pi> k"
      using relabel_entry_index [OF assms(1), of w] True by (simp_all add: k_def)
    have pk: "\<pi> k < ?m" using assms(1) k(1) by (rule is_permutation_less)
    have g': "0 \<le> sint (?\<rho> w) \<and> sint (?\<rho> w) < sint (size_to_int (length u'))"
      using idx pk len guard_iff [of "?\<rho> w" rooms] by simp
    have ek: "extend_perm \<pi> ?m k = \<pi> k" using k(1) by (simp add: extend_perm_def)
    have same: "u' ! \<pi> k = u ! k"
      using Cons.prems k(2) ek by (auto simp: permuted_def)
    have step: "count_usage (w # a) u =
                  bind_err (int_result (sint (u ! k) + 1)) (\<lambda>x. count_usage a (u[k := x]))"
      unfolding k_def by (rule count_usage_step) (simp_all only: g)
    have "count_usage (?\<rho> w # map ?\<rho> a) u' =
            bind_err (int_result (sint (u' ! nat (sint (?\<rho> w))) + 1))
              (\<lambda>x. count_usage (map ?\<rho> a) (u'[nat (sint (?\<rho> w)) := x]))"
      by (rule count_usage_step) (simp_all only: g')
    then have step': "count_usage (map ?\<rho> (w # a)) u' =
                  bind_err (int_result (sint (u ! k) + 1))
                    (\<lambda>x. count_usage (map ?\<rho> a) (u'[\<pi> k := x]))"
      by (simp only: idx(2) same list.map)
    show ?thesis
    proof (cases "int_result (sint (u ! k) + 1)")
      case (Inl e)
      have eq: "count_usage (w # a) u = Inl e"
        by (simp only: step Inl bind_err_Inl)
      have eq': "count_usage (map ?\<rho> (w # a)) u' = Inl e"
        by (simp only: step' Inl bind_err_Inl)
      show ?thesis unfolding eq eq' by simp
    next
      case (Inr x)
      have p: "permuted \<pi> ?m ?n (u[k := x]) (u'[\<pi> k := x])"
        using permuted_update [OF assms(1) room_count_le Cons.prems k(2), of x] ek by simp
      have eq: "count_usage (w # a) u = count_usage a (u[k := x])"
        by (simp only: step Inr bind_err_Inr)
      have eq': "count_usage (map ?\<rho> (w # a)) u' = count_usage (map ?\<rho> a) (u'[\<pi> k := x])"
        by (simp only: step' Inr bind_err_Inr)
      show ?thesis unfolding eq eq' by (rule Cons.IH [OF p])
    qed
  next
    case False
    then have "\<not> (0 \<le> sint w \<and> sint w < sint (size_to_int (length u)))"
      using len guard_iff [of w rooms] by simp
    then have skip: "count_usage (w # a) u = count_usage a u" by (rule count_usage_skip)
    from False have same: "?\<rho> w = w" by (rule relabel_entry_outside)
    from False have "\<not> (0 \<le> sint w \<and> sint w < sint (size_to_int (length u')))"
      using len guard_iff [of w rooms] by simp
    then have "count_usage (w # map ?\<rho> a) u' = count_usage (map ?\<rho> a) u'"
      by (rule count_usage_skip)
    then have skip': "count_usage (map ?\<rho> (w # a)) u' = count_usage (map ?\<rho> a) u'"
      by (simp only: same list.map)
    from Cons.IH [OF Cons.prems] show ?thesis unfolding skip skip' .
  qed
qed

lemma capacity_total_relabel:
  assumes "is_permutation \<pi> m" "m \<le> length rooms" "permuted \<pi> m (length rooms) v v'"
  shows "capacity_total 0 (relabel_rooms \<pi> m rooms) v' = capacity_total 0 rooms v"
proof -
  let ?n = "length rooms" and ?\<sigma> = "extend_perm \<pi> m"
  let ?f = "\<lambda>j. room_penalty (v ! j) (rooms ! j)"
  let ?f' = "\<lambda>j. room_penalty (v' ! j) (relabel_rooms \<pi> m rooms ! j)"
  have "capacity_total 0 (relabel_rooms \<pi> m rooms) v' = sum ?f' {0..<?n}"
    by (simp add: capacity_total_def interv_sum_list_conv_sum_set_nat)
  also have "\<dots> = sum (\<lambda>j. ?f' (?\<sigma> j)) {0..<?n}"
    by (rule sum.reindex_bij_betw [symmetric]) (rule extend_bij [OF assms(1,2)])
  also have "\<dots> = sum ?f {0..<?n}"
  proof (rule sum.cong)
    fix j assume "j \<in> {0..<?n}"
    then have j: "j < ?n" by simp
    with assms(3) have "v' ! ?\<sigma> j = v ! j" by (simp add: permuted_def)
    moreover have "relabel_rooms \<pi> m rooms ! ?\<sigma> j = rooms ! j"
      using assms(1,2) j by (rule relabel_rooms_nth)
    ultimately show "?f' (?\<sigma> j) = ?f j" by simp
  qed simp
  also have "\<dots> = capacity_total 0 rooms v"
    by (simp add: capacity_total_def interv_sum_list_conv_sum_set_nat)
  finally show ?thesis .
qed

lemma at_int_map:
  "at_int (map f a) i = (case at_int a i of Inl e \<Rightarrow> Inl e | Inr r \<Rightarrow> Inr (f r))"
  by (simp add: at_int_def)

lemma incompatibility_penalty_relabel:
  assumes "inj f"
  shows "incompatibility_penalty (map f a) incs p = incompatibility_penalty a incs p"
proof (induction incs arbitrary: p)
  case Nil
  show ?case by simp
next
  case (Cons inc rest)
  show ?case
  proof (cases "at_int a (student1 inc)")
    case (Inl e)
    then show ?thesis by (simp add: at_int_map)
  next
    case r1: (Inr r1)
    show ?thesis
    proof (cases "at_int a (student2 inc)")
      case (Inl e)
      with r1 show ?thesis by (simp add: at_int_map)
    next
      case r2: (Inr r2)
      have "f r1 = f r2 \<longleftrightarrow> r1 = r2" using assms by (auto dest: injD)
      with r1 r2 show ?thesis by (simp add: at_int_map Cons.IH cong: bind_err_cong)
    qed
  qed
qed

lemma permuted_zero:
  assumes "is_permutation \<pi> m" "m \<le> n"
  shows "permuted \<pi> m n (replicate n 0) (replicate n 0)"
  using extend_less [OF assms] by (simp add: permuted_def)

lemma evaluateSolution_relabel:
  assumes "is_permutation \<pi> (room_count rooms)"
  shows "evaluateSolution (map (relabel_entry \<pi> (room_count rooms)) a)
           (relabel_rooms \<pi> (room_count rooms) rooms) incs =
         evaluateSolution a rooms incs"
proof -
  let ?m = "room_count rooms" and ?n = "length rooms"
  let ?\<rho> = "relabel_entry \<pi> ?m"
  let ?rooms' = "relabel_rooms \<pi> ?m rooms"
  let ?u0 = "replicate ?n (0 :: cint)"
  have p0: "permuted \<pi> ?m ?n ?u0 ?u0"
    using assms room_count_le by (rule permuted_zero)
  have inc: "incompatibility_penalty (map ?\<rho> a) incs p = incompatibility_penalty a incs p" for p
    using relabel_entry_inj [OF assms] by (rule incompatibility_penalty_relabel)
  have lhs: "evaluateSolution (map ?\<rho> a) ?rooms' incs =
      bind_err (count_usage (map ?\<rho> a) ?u0) (\<lambda>roomUsage.
      bind_err (capacity_penalty 0 ?rooms' roomUsage 0) (\<lambda>penalty.
      incompatibility_penalty a incs penalty))"
    by (simp add: evaluateSolution_def inc)
  show ?thesis
  proof (cases "count_usage a ?u0")
    case (Inl e)
    with count_usage_relabel [OF assms p0, of a]
    have "count_usage (map ?\<rho> a) ?u0 = Inl e" by simp
    with Inl lhs show ?thesis by (simp add: evaluateSolution_def)
  next
    case (Inr v)
    with count_usage_relabel [OF assms p0, of a] obtain v' where
      v': "count_usage (map ?\<rho> a) ?u0 = Inr v'" "permuted \<pi> ?m ?n v v'"
      by auto
    from v'(2) have len: "length v = ?n" "length v' = length ?rooms'"
      by (simp_all add: permuted_def)
    have "capacity_penalty 0 ?rooms' v' 0 = int_result (sint (0 :: cint) + capacity_total 0 ?rooms' v')"
      using len(2) by (intro capacity_penalty_eq) simp_all
    also have "capacity_total 0 ?rooms' v' = capacity_total 0 rooms v"
      using assms room_count_le v'(2) by (rule capacity_total_relabel)
    also have "int_result (sint (0 :: cint) + capacity_total 0 rooms v) =
                 capacity_penalty 0 rooms v 0"
      using len(1) by (intro capacity_penalty_eq [symmetric]) simp_all
    finally have "capacity_penalty 0 ?rooms' v' 0 = capacity_penalty 0 rooms v 0" .
    with Inr v'(1) lhs show ?thesis by (simp add: evaluateSolution_def)
  qed
qed

section \<open>Claims about evaluateSolution\<close>

text \<open>
  C1 (amended).  When both students of every incompatibility are indices of the assignment,
  the room list and the assignment have at most \<open>INT_MAX\<close> elements and the penalty fits an
  \<^verbatim>\<open>int\<close>, \<open>evaluateSolution\<close> returns exactly the sum of (occupancy - capacity) * 10 over
  the rooms whose occupancy exceeds their capacity, the occupancy of a room being the number
  of entries equal to its index (so an out-of-range entry is counted for no room), plus 5 for
  each incompatibility, duplicates included, whose students have the same entry.
\<close>

theorem evaluateSolution_returns_penalty_sum:
  assumes "students_in_range assignment incompatibilities"
    and "int (length rooms) \<le> 2147483647"
    and "int (length assignment) \<le> 2147483647"
    and "penalty_sum assignment rooms incompatibilities \<le> 2147483647"
  shows "\<exists>p. evaluateSolution assignment rooms incompatibilities = Inr p \<and>
             sint p = penalty_sum assignment rooms incompatibilities"
  using assms by (rule evaluateSolution_value)

theorem evaluateSolution_returns_penalty_sum_witness:
  "students_in_range [0, 0, 1, 7]
     [\<lparr>student1 = 0, student2 = 1\<rparr>, \<lparr>student1 = 0, student2 = 1\<rparr>, \<lparr>student1 = 1, student2 = 2\<rparr>] \<and>
   int (length [\<lparr>capacity = 1\<rparr>, \<lparr>capacity = 1\<rparr>]) \<le> 2147483647 \<and>
   int (length [0, 0, 1, 7 :: cint]) \<le> 2147483647 \<and>
   penalty_sum [0, 0, 1, 7] [\<lparr>capacity = 1\<rparr>, \<lparr>capacity = 1\<rparr>]
     [\<lparr>student1 = 0, student2 = 1\<rparr>, \<lparr>student1 = 0, student2 = 1\<rparr>, \<lparr>student1 = 1, student2 = 2\<rparr>] = 20 \<and>
   evaluateSolution [0, 0, 1, 7] [\<lparr>capacity = 1\<rparr>, \<lparr>capacity = 1\<rparr>]
     [\<lparr>student1 = 0, student2 = 1\<rparr>, \<lparr>student1 = 0, student2 = 1\<rparr>, \<lparr>student1 = 1, student2 = 2\<rparr>] = Inr 20"
proof -
  let ?a = "[0, 0, 1, 7 :: cint]"
  let ?r = "[\<lparr>capacity = 1\<rparr>, \<lparr>capacity = 1\<rparr>]"
  let ?i = "[\<lparr>student1 = 0, student2 = 1\<rparr>, \<lparr>student1 = 0, student2 = 1\<rparr>, \<lparr>student1 = 1, student2 = 2\<rparr>]"
  have h1: "students_in_range ?a ?i" by code_simp
  have h2: "int (length ?r) \<le> 2147483647" by simp
  have h3: "int (length ?a) \<le> 2147483647" by simp
  have h4: "penalty_sum ?a ?r ?i = 20" by code_simp
  then have h4': "penalty_sum ?a ?r ?i \<le> 2147483647" by simp
  from evaluateSolution_returns_penalty_sum [OF h1 h2 h3 h4'] obtain p where
    "evaluateSolution ?a ?r ?i = Inr p" "sint p = 20" using h4 by auto
  moreover have "p = word_of_int (sint p)" by simp
  ultimately have "evaluateSolution ?a ?r ?i = Inr 20" by simp
  with h1 h2 h3 h4 show ?thesis by simp
qed

text \<open>
  C1 as stated, for every incompatibility list and room list, fails: a student index
  outside the assignment is read unguarded (line 69), and a capacity far below zero makes
  the overflow penalty leave the range of \<^verbatim>\<open>int\<close> (line 63).
\<close>

theorem evaluateSolution_not_total_counterexample:
  "evaluateSolution [] [] [\<lparr>student1 = 0, student2 = 0\<rparr>] = Inl OutOfBounds \<and>
   evaluateSolution [] [\<lparr>capacity = - 300000000\<rparr>] [] = Inl SignedOverflow"
  by code_simp

lemma sint_eq_0_iff_cint: "sint (p :: cint) = 0 \<longleftrightarrow> p = 0"
proof
  assume "sint p = 0"
  moreover have "p = word_of_int (sint p)" by simp
  ultimately show "p = 0" by simp
qed simp

lemma overflow_penalty_eq_0_iff:
  "overflow_penalty a rooms i = 0 \<longleftrightarrow> int (occupancy a i) \<le> sint (capacity (rooms ! i))"
  by (auto simp: overflow_penalty_def)

lemma penalty_sum_eq_0_iff:
  "penalty_sum a rooms incs = 0 \<longleftrightarrow>
     (\<forall>i<length rooms. int (occupancy a i) \<le> sint (capacity (rooms ! i))) \<and>
     (\<forall>inc\<in>set incs. \<not> shares_room a inc)"
proof -
  let ?cap = "sum_list (map (overflow_penalty a rooms) [0..<length rooms])"
  let ?n = "length (filter (shares_room a) incs)"
  have cap0: "0 \<le> ?cap"
    by (rule sum_list_nonneg) (auto simp: overflow_penalty_def)
  have "?cap = 0 \<longleftrightarrow> (\<forall>x\<in>set (map (overflow_penalty a rooms) [0..<length rooms]). x = 0)"
    by (rule sum_list_nonneg_eq_0_iff) (auto simp: overflow_penalty_def)
  then have cap: "?cap = 0 \<longleftrightarrow>
      (\<forall>i<length rooms. int (occupancy a i) \<le> sint (capacity (rooms ! i)))"
    by (auto simp: overflow_penalty_eq_0_iff)
  have inc: "?n = 0 \<longleftrightarrow> (\<forall>inc\<in>set incs. \<not> shares_room a inc)"
    by (simp add: filter_empty_conv)
  have "?cap + 5 * int ?n = 0 \<longleftrightarrow> ?cap = 0 \<and> ?n = 0"
    using cap0 by arith
  then have "penalty_sum a rooms incs = 0 \<longleftrightarrow> ?cap = 0 \<and> ?n = 0"
    by (simp only: penalty_sum_def)
  with cap inc show ?thesis by simp
qed

text \<open>
  C4 (amended).  Under the conditions of C1 (student indices inside the assignment, at most
  \<open>INT_MAX\<close> rooms and students, a penalty that fits an \<^verbatim>\<open>int\<close>), and whether or not the
  entries are valid room indices, \<open>evaluateSolution\<close> returns a value that is at least 0, and
  the value is 0 exactly when no room's occupancy exceeds its capacity and no incompatibility
  has both students in the same room.
\<close>

theorem evaluateSolution_nonneg_zero_iff:
  assumes "students_in_range assignment incompatibilities"
    and "int (length rooms) \<le> 2147483647"
    and "int (length assignment) \<le> 2147483647"
    and "penalty_sum assignment rooms incompatibilities \<le> 2147483647"
  shows "\<exists>p. evaluateSolution assignment rooms incompatibilities = Inr p \<and> 0 \<le> sint p \<and>
           (p = 0 \<longleftrightarrow>
              (\<forall>i<length rooms. int (occupancy assignment i) \<le> sint (capacity (rooms ! i))) \<and>
              (\<forall>inc\<in>set incompatibilities. \<not> shares_room assignment inc))"
proof -
  from evaluateSolution_value [OF assms] obtain p where p:
    "evaluateSolution assignment rooms incompatibilities = Inr p"
    "sint p = penalty_sum assignment rooms incompatibilities"
    by blast
  have "0 \<le> sint p" using p(2) penalty_sum_nonneg by simp
  moreover have "p = 0 \<longleftrightarrow> penalty_sum assignment rooms incompatibilities = 0"
    using p(2) sint_eq_0_iff_cint [of p] by simp
  ultimately show ?thesis
    using p(1) penalty_sum_eq_0_iff [of assignment rooms incompatibilities] by simp
qed

theorem evaluateSolution_nonneg_zero_iff_witness:
  "students_in_range [0, 1] [\<lparr>student1 = 0, student2 = 1\<rparr>] \<and>
   int (length [\<lparr>capacity = 1\<rparr>, \<lparr>capacity = 1\<rparr>]) \<le> 2147483647 \<and>
   int (length [0, 1 :: cint]) \<le> 2147483647 \<and>
   penalty_sum [0, 1] [\<lparr>capacity = 1\<rparr>, \<lparr>capacity = 1\<rparr>] [\<lparr>student1 = 0, student2 = 1\<rparr>]
     \<le> 2147483647 \<and>
   (\<exists>p. evaluateSolution [0, 1] [\<lparr>capacity = 1\<rparr>, \<lparr>capacity = 1\<rparr>]
          [\<lparr>student1 = 0, student2 = 1\<rparr>] = Inr p \<and> 0 \<le> sint p \<and>
        (p = 0 \<longleftrightarrow>
           (\<forall>i<length [\<lparr>capacity = 1\<rparr>, \<lparr>capacity = 1\<rparr>].
              int (occupancy [0, 1] i) \<le> sint (capacity ([\<lparr>capacity = 1\<rparr>, \<lparr>capacity = 1\<rparr>] ! i))) \<and>
           (\<forall>inc\<in>set [\<lparr>student1 = 0, student2 = 1\<rparr>]. \<not> shares_room [0, 1] inc)))"
proof -
  let ?a = "[0, 1 :: cint]"
  let ?r = "[\<lparr>capacity = 1\<rparr>, \<lparr>capacity = 1\<rparr>]"
  let ?i = "[\<lparr>student1 = 0, student2 = 1\<rparr>]"
  have h1: "students_in_range ?a ?i" by code_simp
  have h2: "int (length ?r) \<le> 2147483647" by simp
  have h3: "int (length ?a) \<le> 2147483647" by simp
  have "penalty_sum ?a ?r ?i = 0" by code_simp
  then have h4: "penalty_sum ?a ?r ?i \<le> 2147483647" by simp
  from evaluateSolution_nonneg_zero_iff [OF h1 h2 h3 h4] h1 h2 h3 h4 show ?thesis by blast
qed

text \<open>
  C4 as stated fails: the entry of the one student is a valid room index, but the second
  student of the incompatibility is not an index of the assignment, and no value is
  returned.
\<close>

theorem evaluateSolution_nonneg_counterexample:
  "0 \<le> sint (0 :: cint) \<and> sint (0 :: cint) < int (length [\<lparr>capacity = 1\<rparr>]) \<and>
   evaluateSolution [0] [\<lparr>capacity = 1\<rparr>] [\<lparr>student1 = 0, student2 = 1\<rparr>] = Inl OutOfBounds"
  by code_simp

text \<open>
  C9.  When both students of every incompatibility are indices of the assignment, no vector
  access of \<open>evaluateSolution\<close> is out of bounds: the result is never the error that every
  out-of-range subscript of the embedding produces.
\<close>

theorem evaluateSolution_accesses_in_bounds:
  assumes "students_in_range assignment incompatibilities"
  shows "evaluateSolution assignment rooms incompatibilities \<noteq> Inl OutOfBounds"
proof (cases "count_usage assignment (replicate (length rooms) 0)")
  case (Inl e)
  with count_usage_not_oob [of assignment "replicate (length rooms) 0"]
  show ?thesis by (simp add: evaluateSolution_def)
next
  case (Inr u)
  then have len: "length u = length rooms"
    using count_usage_length by fastforce
  show ?thesis
  proof (cases "capacity_penalty 0 rooms u 0")
    case (Inl e)
    with capacity_penalty_not_oob [OF len] Inr show ?thesis
      by (simp add: evaluateSolution_def)
  next
    case p: (Inr p)
    have "0 \<le> sint p"
      using capacity_penalty_result [OF len p] capacity_total_nonneg by simp
    from incompatibility_penalty_eq [OF assms this] Inr p show ?thesis
      by (simp add: evaluateSolution_def int_result_not_oob)
  qed
qed

theorem evaluateSolution_accesses_in_bounds_witness:
  "students_in_range [0, 5, 1] [\<lparr>student1 = 0, student2 = 2\<rparr>] \<and>
   evaluateSolution [0, 5, 1] [\<lparr>capacity = 1\<rparr>] [\<lparr>student1 = 0, student2 = 2\<rparr>] \<noteq> Inl OutOfBounds"
proof -
  have h: "students_in_range [0, 5, 1] [\<lparr>student1 = 0, student2 = 2\<rparr>]" by code_simp
  from evaluateSolution_accesses_in_bounds [OF h] h show ?thesis by blast
qed

section \<open>Workers and schedules on a valid problem\<close>

lemma valid_problem_search:
  assumes "valid_problem rooms incs numStudents"
    and "\<forall>c\<in>set cs. length c = nat (sint numStudents)" and "cs \<noteq> []"
  shows "\<exists>g. attempts rooms incs cs initial_globals = Inr g \<and>
             sint (globalBestFitness g) < sint INT_MAX \<and>
             globalBestAssignment g \<in> set cs \<and>
             evaluateSolution (globalBestAssignment g) rooms incs = Inr (globalBestFitness g)"
proof (rule search_holds_candidate [OF _ _ _ assms(2,3)])
  show "\<forall>r\<in>set rooms. 0 \<le> sint (capacity r)"
    using assms(1) by (simp add: valid_problem_def list_all_iff)
  show "students_in_range (replicate (nat (sint numStudents)) 0) incs"
    using assms(1) by (simp add: valid_problem_def)
  show "10 * int (nat (sint numStudents)) + 5 * int (length incs) \<le> 2147483647"
    using assms(1) by (simp add: valid_problem_def)
qed

lemma monteCarloThread_holds_candidate:
  assumes "valid_problem rooms incs numStudents" "1 \<le> sint iterations"
  shows "\<exists>g. monteCarloThread iterations rooms incs numStudents raw initial_globals = Inr g \<and>
             sint (globalBestFitness g) < sint INT_MAX \<and>
             evaluateSolution (globalBestAssignment g) rooms incs = Inr (globalBestFitness g)"
proof -
  let ?cs = "map (\<lambda>k. random_assignment (nat (sint numStudents))
                         (size_to_int (length rooms - 1)) (raw k))
                [0..<nat (sint iterations)]"
  from assms(1) have r: "rooms \<noteq> []" "int (length rooms) \<le> 2147483647" "0 \<le> sint numStudents"
    by (simp_all add: valid_problem_def)
  have len: "\<forall>c\<in>set ?cs. length c = nat (sint numStudents)" by simp
  have ne: "?cs \<noteq> []" using assms(2) by simp
  from valid_problem_search [OF assms(1) len ne] monteCarloThread_attempts [OF r]
  show ?thesis by auto
qed

lemma spawn_and_join_holds_candidate:
  assumes "valid_problem rooms incs numStudents" "1 \<le> sint iterations" "0 < sint threadCount"
    and "complete_schedule (nat (sint threadCount)) (nat (sint iterations)) sched"
  shows "\<exists>g. spawn_and_join threadCount iterations rooms incs numStudents sched raw
               initial_globals = Inr g \<and>
             sint (globalBestFitness g) < sint INT_MAX \<and>
             evaluateSolution (globalBestAssignment g) rooms incs = Inr (globalBestFitness g)"
proof -
  let ?cs = "scheduled_candidates sched (\<lambda>t. 0) (nat (sint threadCount)) (nat (sint iterations))
                (nat (sint numStudents)) (size_to_int (length rooms - 1)) raw"
  from assms(1) have r: "rooms \<noteq> []" "int (length rooms) \<le> 2147483647" "0 \<le> sint numStudents"
    by (simp_all add: valid_problem_def)
  have len: "\<forall>c\<in>set ?cs. length c = nat (sint numStudents)"
    by (rule scheduled_candidates_length)
  have ne: "?cs \<noteq> []"
    using assms(2,3) by (intro scheduled_candidates_nonempty [OF assms(4)]) simp_all
  from valid_problem_search [OF assms(1) len ne] spawn_and_join_attempts [OF r assms(3)]
  show ?thesis by auto
qed

subsection \<open>One room\<close>

lemma attempts_same:
  assumes "evaluateSolution c rooms incs = Inr f" "set cs \<subseteq> {c}"
  shows "attempts rooms incs cs \<lparr>globalBestFitness = f, globalBestAssignment = c\<rparr> =
           Inr \<lparr>globalBestFitness = f, globalBestAssignment = c\<rparr>"
  using assms(2)
proof (induction cs)
  case Nil
  show ?case by simp
next
  case (Cons d cs)
  then have "d = c" "set cs \<subseteq> {c}" by simp_all
  with Cons.IH assms(1) show ?case by (simp add: attempt_def tryImprove_def)
qed

lemma attempts_same_initial:
  assumes "evaluateSolution c rooms incs = Inr f" "set cs \<subseteq> {c}" "cs \<noteq> []"
  shows "attempts rooms incs cs initial_globals =
           Inr \<lparr>globalBestFitness = f, globalBestAssignment = c\<rparr>"
proof -
  from assms(2,3) obtain rest where cs: "cs = c # rest" "set rest \<subseteq> {c}"
    by (cases cs) auto
  have "tryImprove f c initial_globals = \<lparr>globalBestFitness = f, globalBestAssignment = c\<rparr>"
    using evaluateSolution_less_INT_MAX [OF assms(1)]
    by (simp add: tryImprove_def initial_globals_def)
  with attempts_same [OF assms(1) cs(2)] assms(1) cs(1) show ?thesis
    by (simp add: attempt_def)
qed

lemma evaluate_one_room:
  "evaluateSolution [0, 0, 0] [\<lparr>capacity = 5\<rparr>] [\<lparr>student1 = 0, student2 = 1\<rparr>] = Inr 5"
  by code_simp

lemma random_assignment_one_room: "random_assignment 3 (size_to_int 0) raw = [0, 0, 0]"
  by (simp add: random_assignment_def roomDist_def size_to_int_def numeral_3_eq_3)

section \<open>Claims about the search\<close>

text \<open>
  C6.  After any sequence of attempts that starts from the initial globals (fitness
  \<open>INT_MAX\<close>, no assignment), a stored assignment that is not empty evaluates, against the
  rooms and incompatibilities of the run, to exactly the stored fitness.
\<close>

theorem stored_assignment_matches_stored_fitness:
  assumes "attempts rooms incompatibilities candidates initial_globals = Inr g"
    and "globalBestAssignment g \<noteq> []"
  shows "evaluateSolution (globalBestAssignment g) rooms incompatibilities =
           Inr (globalBestFitness g)"
  using attempts_cases [OF assms(1)] assms(2) by (auto simp: initial_globals_def)

theorem stored_assignment_matches_stored_fitness_witness:
  "attempts [\<lparr>capacity = 1\<rparr>, \<lparr>capacity = 1\<rparr>] [] [[0, 0], [0, 1], [1, 1]] initial_globals =
     Inr \<lparr>globalBestFitness = 0, globalBestAssignment = [0, 1]\<rparr> \<and>
   globalBestAssignment \<lparr>globalBestFitness = 0, globalBestAssignment = [0, 1 :: cint]\<rparr> \<noteq> [] \<and>
   evaluateSolution [0, 1] [\<lparr>capacity = 1\<rparr>, \<lparr>capacity = 1\<rparr>] [] = Inr 0"
proof -
  have h: "attempts [\<lparr>capacity = 1\<rparr>, \<lparr>capacity = 1\<rparr>] [] [[0, 0], [0, 1], [1, 1]] initial_globals =
             Inr \<lparr>globalBestFitness = 0, globalBestAssignment = [0, 1]\<rparr>"
    by code_simp
  from stored_assignment_matches_stored_fitness [OF h] h show ?thesis by simp
qed

text \<open>
  C10 (amended).  When no capacity is negative, a value returned by \<open>evaluateSolution\<close> is at
  most 10 * (length of the assignment) + 5 * (number of incompatibilities), and a value is
  returned when moreover the student indices are inside the assignment and that bound fits
  an \<^verbatim>\<open>int\<close>.  For every input, a returned fitness is strictly less than \<open>INT_MAX\<close>; so after
  a non-empty sequence of attempts from the initial globals the stored assignment is one of
  the candidates and the stored fitness is its score, below the sentinel.  On a valid
  problem, one worker with at least one iteration, and any complete schedule of at least one
  worker with at least one iteration, end in such a state.
\<close>

theorem evaluateSolution_upper_bound:
  "((\<forall>r\<in>set rooms. 0 \<le> sint (capacity r)) \<longrightarrow>
      (evaluateSolution assignment rooms incompatibilities = Inr p \<longrightarrow>
         sint p \<le> 10 * int (length assignment) + 5 * int (length incompatibilities)) \<and>
      (students_in_range assignment incompatibilities \<and>
       10 * int (length assignment) + 5 * int (length incompatibilities) \<le> 2147483647 \<longrightarrow>
         (\<exists>q. evaluateSolution assignment rooms incompatibilities = Inr q))) \<and>
   (evaluateSolution assignment rooms incompatibilities = Inr p \<longrightarrow> sint p < sint INT_MAX) \<and>
   (candidates \<noteq> [] \<and> attempts rooms incompatibilities candidates initial_globals = Inr g \<longrightarrow>
      sint (globalBestFitness g) < sint INT_MAX \<and>
      globalBestAssignment g \<in> set candidates \<and>
      evaluateSolution (globalBestAssignment g) rooms incompatibilities =
        Inr (globalBestFitness g)) \<and>
   (valid_problem rooms incompatibilities numStudents \<and> 1 \<le> sint iterations \<longrightarrow>
      (\<exists>g'. monteCarloThread iterations rooms incompatibilities numStudents raw initial_globals =
              Inr g' \<and>
            sint (globalBestFitness g') < sint INT_MAX \<and>
            evaluateSolution (globalBestAssignment g') rooms incompatibilities =
              Inr (globalBestFitness g'))) \<and>
   (valid_problem rooms incompatibilities numStudents \<and> 1 \<le> sint iterations \<and>
    0 < sint threadCount \<and>
    complete_schedule (nat (sint threadCount)) (nat (sint iterations)) sched \<longrightarrow>
      (\<exists>g'. spawn_and_join threadCount iterations rooms incompatibilities numStudents sched raws
              initial_globals = Inr g' \<and>
            sint (globalBestFitness g') < sint INT_MAX \<and>
            evaluateSolution (globalBestAssignment g') rooms incompatibilities =
              Inr (globalBestFitness g')))"
proof (intro conjI impI)
  assume "\<forall>r\<in>set rooms. 0 \<le> sint (capacity r)"
    and "evaluateSolution assignment rooms incompatibilities = Inr p"
  then show "sint p \<le> 10 * int (length assignment) + 5 * int (length incompatibilities)"
    by (intro evaluateSolution_upper)
next
  assume "\<forall>r\<in>set rooms. 0 \<le> sint (capacity r)"
    and "students_in_range assignment incompatibilities \<and>
         10 * int (length assignment) + 5 * int (length incompatibilities) \<le> 2147483647"
  then show "\<exists>q. evaluateSolution assignment rooms incompatibilities = Inr q"
    by (intro evaluateSolution_total) simp_all
next
  assume "evaluateSolution assignment rooms incompatibilities = Inr p"
  then show "sint p < sint INT_MAX" by (rule evaluateSolution_less_INT_MAX)
next
  assume a: "candidates \<noteq> [] \<and>
             attempts rooms incompatibilities candidates initial_globals = Inr g"
  then have *: "globalBestAssignment g \<in> set candidates \<and>
        evaluateSolution (globalBestAssignment g) rooms incompatibilities =
          Inr (globalBestFitness g)"
    by (intro attempts_initial) simp_all
  then show "globalBestAssignment g \<in> set candidates"
    and "evaluateSolution (globalBestAssignment g) rooms incompatibilities =
          Inr (globalBestFitness g)"
    by simp_all
  from * have "evaluateSolution (globalBestAssignment g) rooms incompatibilities =
          Inr (globalBestFitness g)" by simp
  then show "sint (globalBestFitness g) < sint INT_MAX"
    by (rule evaluateSolution_less_INT_MAX)
next
  assume "valid_problem rooms incompatibilities numStudents \<and> 1 \<le> sint iterations"
  then show "\<exists>g'. monteCarloThread iterations rooms incompatibilities numStudents raw
                    initial_globals = Inr g' \<and>
            sint (globalBestFitness g') < sint INT_MAX \<and>
            evaluateSolution (globalBestAssignment g') rooms incompatibilities =
              Inr (globalBestFitness g')"
    by (intro monteCarloThread_holds_candidate) simp_all
next
  assume "valid_problem rooms incompatibilities numStudents \<and> 1 \<le> sint iterations \<and>
    0 < sint threadCount \<and>
    complete_schedule (nat (sint threadCount)) (nat (sint iterations)) sched"
  then show "\<exists>g'. spawn_and_join threadCount iterations rooms incompatibilities numStudents
                    sched raws initial_globals = Inr g' \<and>
            sint (globalBestFitness g') < sint INT_MAX \<and>
            evaluateSolution (globalBestAssignment g') rooms incompatibilities =
              Inr (globalBestFitness g')"
    by (intro spawn_and_join_holds_candidate) simp_all
qed

theorem evaluateSolution_upper_bound_witness:
  "list_all (\<lambda>r. 0 \<le> sint (capacity r)) [\<lparr>capacity = 1\<rparr>] \<and>
   evaluateSolution [0, 0, 0] [\<lparr>capacity = 1\<rparr>] [\<lparr>student1 = 0, student2 = 1\<rparr>] = Inr 25 \<and>
   sint (25 :: cint) \<le> 10 * int (length [0, 0, 0 :: cint]) +
     5 * int (length [\<lparr>student1 = 0 :: cint, student2 = 1 :: cint\<rparr>]) \<and>
   students_in_range [0, 0, 0] [\<lparr>student1 = 0, student2 = 1\<rparr>] \<and>
   10 * int (length [0, 0, 0 :: cint]) +
     5 * int (length [\<lparr>student1 = 0 :: cint, student2 = 1 :: cint\<rparr>]) \<le> 2147483647 \<and>
   sint (25 :: cint) < sint INT_MAX \<and>
   [[0, 0, 0 :: cint]] \<noteq> [] \<and>
   attempts [\<lparr>capacity = 1\<rparr>] [\<lparr>student1 = 0, student2 = 1\<rparr>] [[0, 0, 0]] initial_globals =
     Inr \<lparr>globalBestFitness = 25, globalBestAssignment = [0, 0, 0]\<rparr> \<and>
   sint (globalBestFitness \<lparr>globalBestFitness = 25, globalBestAssignment = [0, 0, 0 :: cint]\<rparr>)
     < sint INT_MAX \<and>
   valid_problem [\<lparr>capacity = 1\<rparr>] [\<lparr>student1 = 0, student2 = 1\<rparr>] 3 \<and>
   1 \<le> sint (2 :: cint) \<and> 0 < sint (2 :: cint) \<and>
   complete_schedule (nat (sint (2 :: cint))) (nat (sint (2 :: cint))) [0, 1, 1, 0] \<and>
   (\<exists>g'. monteCarloThread 2 [\<lparr>capacity = 1\<rparr>] [\<lparr>student1 = 0, student2 = 1\<rparr>] 3 (\<lambda>i j. i + j)
            initial_globals = Inr g' \<and>
          sint (globalBestFitness g') < sint INT_MAX) \<and>
   (\<exists>g'. spawn_and_join 2 2 [\<lparr>capacity = 1\<rparr>] [\<lparr>student1 = 0, student2 = 1\<rparr>] 3 [0, 1, 1, 0]
            (\<lambda>t i j. t + i + j) initial_globals = Inr g' \<and>
          sint (globalBestFitness g') < sint INT_MAX)"
proof -
  let ?a = "[0, 0, 0 :: cint]"
  let ?r = "[\<lparr>capacity = 1\<rparr>]"
  let ?i = "[\<lparr>student1 = 0, student2 = 1\<rparr>]"
  let ?g = "\<lparr>globalBestFitness = 25, globalBestAssignment = ?a\<rparr>"
  have h1: "\<forall>r\<in>set ?r. 0 \<le> sint (capacity r)" by simp
  have h2: "evaluateSolution ?a ?r ?i = Inr 25" by code_simp
  have h3: "students_in_range ?a ?i" by code_simp
  have h4: "10 * int (length ?a) + 5 * int (length ?i) \<le> 2147483647" by simp
  have h5: "[?a] \<noteq> []" by simp
  have h6: "attempts ?r ?i [?a] initial_globals = Inr ?g" by code_simp
  have h7: "valid_problem ?r ?i 3" by code_simp
  have h8: "1 \<le> sint (2 :: cint)" "0 < sint (2 :: cint)" by simp_all
  have h9: "complete_schedule (nat (sint (2 :: cint))) (nat (sint (2 :: cint))) [0, 1, 1, 0]"
    by code_simp
  from evaluateSolution_upper_bound
         [of ?r ?a ?i 25 "[?a]" ?g 3 2 "\<lambda>i j. i + j" 2 "[0, 1, 1, 0]" "\<lambda>t i j. t + i + j"]
       h1 h2 h3 h4 h5 h6 h7 h8 h9
  show ?thesis by (simp, blast)
qed

text \<open>
  C10 as stated, for every room list and incompatibility list, fails: a room of capacity -1
  is over capacity when empty, and the penalty 10 exceeds the bound 0 of the empty
  assignment; and with a student index outside the assignment no value is returned.
\<close>

theorem evaluateSolution_upper_bound_counterexample:
  "evaluateSolution [] [\<lparr>capacity = - 1\<rparr>] [] = Inr 10 \<and>
   \<not> sint (10 :: cint) \<le> 10 * int (length ([] :: cint list)) +
       5 * int (length ([] :: Incompatibility list)) \<and>
   evaluateSolution [1, 0] [\<lparr>capacity = 2\<rparr>, \<lparr>capacity = 2\<rparr>] [\<lparr>student1 = 2, student2 = 0\<rparr>] =
     Inl OutOfBounds"
  by code_simp

text \<open>
  C8.  One room of capacity 5, three students, the incompatibility (0, 1): every assignment
  of the three students to the one room scores exactly 5, and the search ends with fitness
  5, for one worker with any number of iterations from 1 on and for any complete schedule
  of at least one worker with at least one iteration.
\<close>

theorem single_room_fitness_is_5:
  "(length assignment = 3 \<and> (\<forall>room\<in>set assignment. 0 \<le> sint room \<and> sint room < 1) \<longrightarrow>
      evaluateSolution assignment [\<lparr>capacity = 5\<rparr>] [\<lparr>student1 = 0, student2 = 1\<rparr>] = Inr 5) \<and>
   (1 \<le> sint iterations \<longrightarrow>
      monteCarloThread iterations [\<lparr>capacity = 5\<rparr>] [\<lparr>student1 = 0, student2 = 1\<rparr>] 3 raw
        initial_globals =
      Inr \<lparr>globalBestFitness = 5, globalBestAssignment = [0, 0, 0]\<rparr>) \<and>
   (0 < sint threadCount \<and> 1 \<le> sint iterations \<and>
    complete_schedule (nat (sint threadCount)) (nat (sint iterations)) sched \<longrightarrow>
      spawn_and_join threadCount iterations [\<lparr>capacity = 5\<rparr>] [\<lparr>student1 = 0, student2 = 1\<rparr>] 3
        sched raws initial_globals =
      Inr \<lparr>globalBestFitness = 5, globalBestAssignment = [0, 0, 0]\<rparr>)"
proof (intro conjI impI)
  assume a: "length assignment = 3 \<and> (\<forall>room\<in>set assignment. 0 \<le> sint room \<and> sint room < 1)"
  then obtain x y z where xyz: "assignment = [x, y, z]"
    by (auto simp: numeral_3_eq_3 length_Suc_conv)
  with a have "sint x = 0" "sint y = 0" "sint z = 0" by auto
  then have "x = 0" "y = 0" "z = 0" by (simp_all add: sint_eq_0_iff_cint)
  with xyz show "evaluateSolution assignment [\<lparr>capacity = 5\<rparr>] [\<lparr>student1 = 0, student2 = 1\<rparr>] = Inr 5"
    by (simp add: evaluate_one_room)
next
  let ?r = "[\<lparr>capacity = 5\<rparr>]"
  let ?i = "[\<lparr>student1 = 0, student2 = 1\<rparr>]"
  assume it: "1 \<le> sint iterations"
  let ?cs = "map (\<lambda>k. random_assignment (nat (sint (3 :: cint)))
                        (size_to_int (length ?r - 1)) (raw k))
               [0..<nat (sint iterations)]"
  have eq: "monteCarloThread iterations ?r ?i 3 raw initial_globals =
              attempts ?r ?i ?cs initial_globals"
    by (rule monteCarloThread_attempts) simp_all
  have sub: "set ?cs \<subseteq> {[0, 0, 0]}"
    by (auto simp: random_assignment_one_room)
  have ne: "?cs \<noteq> []" using it by simp
  from attempts_same_initial [OF evaluate_one_room sub ne] eq
  show "monteCarloThread iterations ?r ?i 3 raw initial_globals =
          Inr \<lparr>globalBestFitness = 5, globalBestAssignment = [0, 0, 0]\<rparr>"
    by simp
next
  let ?r = "[\<lparr>capacity = 5\<rparr>]"
  let ?i = "[\<lparr>student1 = 0, student2 = 1\<rparr>]"
  assume a: "0 < sint threadCount \<and> 1 \<le> sint iterations \<and>
    complete_schedule (nat (sint threadCount)) (nat (sint iterations)) sched"
  let ?cs = "scheduled_candidates sched (\<lambda>t. 0) (nat (sint threadCount)) (nat (sint iterations))
                (nat (sint (3 :: cint))) (size_to_int (length ?r - 1)) raws"
  have eq: "spawn_and_join threadCount iterations ?r ?i 3 sched raws initial_globals =
              attempts ?r ?i ?cs initial_globals"
    using a by (intro spawn_and_join_attempts) simp_all
  have sub: "set ?cs \<subseteq> {[0, 0, 0]}"
    using scheduled_candidates_subset
            [of sched "\<lambda>t. 0" "nat (sint threadCount)" "nat (sint iterations)"
                "nat (sint (3 :: cint))" "size_to_int (length ?r - 1)" raws]
    by (auto simp: random_assignment_one_room)
  have ne: "?cs \<noteq> []"
    using a by (intro scheduled_candidates_nonempty [of _ _ sched]) simp_all
  from attempts_same_initial [OF evaluate_one_room sub ne] eq
  show "spawn_and_join threadCount iterations ?r ?i 3 sched raws initial_globals =
          Inr \<lparr>globalBestFitness = 5, globalBestAssignment = [0, 0, 0]\<rparr>"
    by simp
qed

theorem single_room_fitness_is_5_witness:
  "length [0, 0, 0 :: cint] = 3 \<and>
   list_all (\<lambda>room. 0 \<le> sint room \<and> sint room < 1) [0, 0, 0 :: cint] \<and>
   evaluateSolution [0, 0, 0] [\<lparr>capacity = 5\<rparr>] [\<lparr>student1 = 0, student2 = 1\<rparr>] = Inr 5 \<and>
   1 \<le> sint (7 :: cint) \<and>
   monteCarloThread 7 [\<lparr>capacity = 5\<rparr>] [\<lparr>student1 = 0, student2 = 1\<rparr>] 3 (\<lambda>i j. i * j + 2)
     initial_globals =
   Inr \<lparr>globalBestFitness = 5, globalBestAssignment = [0, 0, 0]\<rparr> \<and>
   0 < sint (2 :: cint) \<and> 1 \<le> sint (1 :: cint) \<and>
   complete_schedule (nat (sint (2 :: cint))) (nat (sint (1 :: cint))) [1, 0] \<and>
   spawn_and_join 2 1 [\<lparr>capacity = 5\<rparr>] [\<lparr>student1 = 0, student2 = 1\<rparr>] 3 [1, 0]
     (\<lambda>t i j. t + j) initial_globals =
   Inr \<lparr>globalBestFitness = 5, globalBestAssignment = [0, 0, 0]\<rparr>"
proof -
  have h1: "length [0, 0, 0 :: cint] = 3 \<and>
            (\<forall>room\<in>set [0, 0, 0 :: cint]. 0 \<le> sint room \<and> sint room < 1)" by simp
  have h2: "1 \<le> sint (7 :: cint)" by simp
  have h3: "0 < sint (2 :: cint) \<and> 1 \<le> sint (1 :: cint) \<and>
            complete_schedule (nat (sint (2 :: cint))) (nat (sint (1 :: cint))) [1, 0]"
    by code_simp
  from single_room_fitness_is_5 [of "[0, 0, 0]" 7 "\<lambda>i j. i * j + 2" 2 "[1, 0]" "\<lambda>t i j. t + j"]
       single_room_fitness_is_5 [of "[0, 0, 0]" 1 "\<lambda>i j. i * j + 2" 2 "[1, 0]" "\<lambda>t i j. t + j"]
       h1 h2 h3
  show ?thesis by simp
qed

text \<open>
  C5 (amended).  Nothing validates the thread count.  With a thread count that is zero or
  negative \<^verbatim>\<open>main\<close> spawns no worker and raises no error: whatever the schedule and the
  random sources, its search part ends normally and it comes to its report with the globals
  still at their initial values.
\<close>

theorem nonpositive_thread_count_not_rejected:
  "sint threadCount \<le> 0 \<longrightarrow> main_search (Some threadCount) sched raw = Inr initial_globals"
  by (simp add: main_search_def spawn_and_join_def)

theorem nonpositive_thread_count_not_rejected_witness:
  "sint (- 2 :: cint) \<le> 0 \<and>
   main_search (Some (- 2)) [0, 1, 0] (\<lambda>t i j. j) = Inr initial_globals"
  using nonpositive_thread_count_not_rejected [of "- 2" "[0, 1, 0]" "\<lambda>t i j. j"]
  by simp

text \<open>
  C5 as stated fails: for the arguments 0 and -1 the search part of \<^verbatim>\<open>main\<close> ends without
  an error, and the run goes on to the report, whose first subscript
  \<^verbatim>\<open>globalBestAssignment[0]\<close> is outside the empty vector.
\<close>

theorem no_startup_error_counterexample:
  "main_search (Some 0) [] (\<lambda>t i j. 0) = Inr initial_globals \<and>
   main (Some 0) [] (\<lambda>t i j. 0) = Inl OutOfBounds \<and>
   main_search (Some (- 1)) [] (\<lambda>t i j. 0) = Inr initial_globals \<and>
   main (Some (- 1)) [] (\<lambda>t i j. 0) = Inl OutOfBounds"
  by code_simp

section \<open>The claim about relabelled rooms\<close>

text \<open>
  C7.  For a permutation \<open>\<pi>\<close> of the room indices, an assignment with every entry renamed
  by \<open>\<pi>\<close>, evaluated against the room list renamed by the same \<open>\<pi>\<close>, gives the same result
  as the original assignment against the original rooms.  With the rooms left as they were
  the results differ for some input.
\<close>

theorem evaluateSolution_relabel_invariant:
  "(is_permutation \<pi> (room_count rooms) \<longrightarrow>
      evaluateSolution (map (relabel_entry \<pi> (room_count rooms)) assignment)
        (relabel_rooms \<pi> (room_count rooms) rooms) incompatibilities =
      evaluateSolution assignment rooms incompatibilities) \<and>
   (\<exists>\<pi>' assignment' rooms' incompatibilities'.
      is_permutation \<pi>' (room_count rooms') \<and>
      evaluateSolution (map (relabel_entry \<pi>' (room_count rooms')) assignment') rooms'
        incompatibilities' \<noteq>
      evaluateSolution assignment' rooms' incompatibilities')"
proof (intro conjI impI)
  assume "is_permutation \<pi> (room_count rooms)"
  then show "evaluateSolution (map (relabel_entry \<pi> (room_count rooms)) assignment)
        (relabel_rooms \<pi> (room_count rooms) rooms) incompatibilities =
      evaluateSolution assignment rooms incompatibilities"
    by (rule evaluateSolution_relabel)
next
  let ?\<pi> = "\<lambda>j :: nat. 1 - j"
  let ?a = "[0, 0 :: cint]"
  let ?r = "[\<lparr>capacity = 1\<rparr>, \<lparr>capacity = 2\<rparr>]"
  have "is_permutation ?\<pi> (room_count ?r) \<and>
        evaluateSolution (map (relabel_entry ?\<pi> (room_count ?r)) ?a) ?r [] \<noteq>
        evaluateSolution ?a ?r []"
    by code_simp
  then show "\<exists>\<pi>' assignment' rooms' incompatibilities'.
      is_permutation \<pi>' (room_count rooms') \<and>
      evaluateSolution (map (relabel_entry \<pi>' (room_count rooms')) assignment') rooms'
        incompatibilities' \<noteq>
      evaluateSolution assignment' rooms' incompatibilities'"
    by blast
qed

theorem evaluateSolution_relabel_invariant_witness:
  "is_permutation (\<lambda>j. 1 - j) (room_count [\<lparr>capacity = 1\<rparr>, \<lparr>capacity = 3\<rparr>]) \<and>
   evaluateSolution
     (map (relabel_entry (\<lambda>j. 1 - j) (room_count [\<lparr>capacity = 1\<rparr>, \<lparr>capacity = 3\<rparr>])) [0, 0, 1, 5])
     (relabel_rooms (\<lambda>j. 1 - j) (room_count [\<lparr>capacity = 1\<rparr>, \<lparr>capacity = 3\<rparr>])
        [\<lparr>capacity = 1\<rparr>, \<lparr>capacity = 3\<rparr>])
     [\<lparr>student1 = 0, student2 = 1\<rparr>] =
   evaluateSolution [0, 0, 1, 5] [\<lparr>capacity = 1\<rparr>, \<lparr>capacity = 3\<rparr>] [\<lparr>student1 = 0, student2 = 1\<rparr>] \<and>
   evaluateSolution [0, 0, 1, 5] [\<lparr>capacity = 1\<rparr>, \<lparr>capacity = 3\<rparr>] [\<lparr>student1 = 0, student2 = 1\<rparr>] =
     Inr 15 \<and>
   map (relabel_entry (\<lambda>j. 1 - j) (room_count [\<lparr>capacity = 1\<rparr>, \<lparr>capacity = 3\<rparr>])) [0, 0, 1, 5] =
     [1, 1, 0, 5] \<and>
   relabel_rooms (\<lambda>j. 1 - j) (room_count [\<lparr>capacity = 1\<rparr>, \<lparr>capacity = 3\<rparr>])
     [\<lparr>capacity = 1\<rparr>, \<lparr>capacity = 3\<rparr>] = [\<lparr>capacity = 3\<rparr>, \<lparr>capacity = 1\<rparr>]"
proof -
  let ?\<pi> = "\<lambda>j :: nat. 1 - j"
  let ?r = "[\<lparr>capacity = 1\<rparr>, \<lparr>capacity = 3\<rparr>]"
  have h: "is_permutation ?\<pi> (room_count ?r)" by code_simp
  have e: "evaluateSolution [0, 0, 1, 5] ?r [\<lparr>student1 = 0, student2 = 1\<rparr>] = Inr 15"
    by code_simp
  have m: "map (relabel_entry ?\<pi> (room_count ?r)) [0, 0, 1, 5] = [1, 1, 0, 5]"
    by code_simp
  have r: "relabel_rooms ?\<pi> (room_count ?r) ?r = [\<lparr>capacity = 3\<rparr>, \<lparr>capacity = 1\<rparr>]"
    by code_simp
  from evaluateSolution_relabel_invariant
         [of ?\<pi> ?r "[0, 0, 1, 5]" "[\<lparr>student1 = 0, student2 = 1\<rparr>]"] h
  have "evaluateSolution (map (relabel_entry ?\<pi> (room_count ?r)) [0, 0, 1, 5])
          (relabel_rooms ?\<pi> (room_count ?r) ?r) [\<lparr>student1 = 0, student2 = 1\<rparr>] =
        evaluateSolution [0, 0, 1, 5] ?r [\<lparr>student1 = 0, student2 = 1\<rparr>]"
    by blast
  with h e m r show ?thesis by (intro conjI)
qed

end
